theory Spec2Isabelle
  imports Main "HOL-Library.Word"
begin

section \<open>Shared data model\<close>

text \<open>
  Both headers (\<^verbatim>\<open>generator.h\<close>, \<^verbatim>\<open>generator_pthread.h\<close>) declare the same
  enumeration of generator states and the same scalar value channel (\<^verbatim>\<open>int64_t\<close>).
\<close>

datatype generator_state = GEN_RUNNING | GEN_SUSPENDED | GEN_FINISHED

type_synonym int64_t = "64 word"
type_synonym int32_t = "32 word"
type_synonym size_t = "64 word"

text \<open>
  A user function (\<^verbatim>\<open>generator_func_t\<close>) interacts with its generator object in two ways
  only: it calls \<^verbatim>\<open>yield(self, v)\<close> and it reads \<^verbatim>\<open>self->state\<close>; and it may call
  functions of its own that do the same, as the recursive helper of bst.c does. A finite
  run of such a function is the tree of these events: \<open>Return\<close> is the return of the
  user function, \<open>Yield v k\<close> calls \<^verbatim>\<open>yield(self, v)\<close> and goes on as \<open>k\<close> once that call
  returns, \<open>IfState st a b\<close> is \<^verbatim>\<open>if (self->state == st) a else b\<close>, \<open>Enter k\<close> is the call
  of a function of the user's, whose activation record goes on the stack and which goes
  on as \<open>k\<close>, and \<open>Leave k\<close> is the return from such a call, which takes the record off
  the stack and goes on as \<open>k\<close> in the calling function.
\<close>

datatype prog =
  Return | Yield int64_t prog | IfState generator_state prog prog | Enter prog | Leave prog

section \<open>The stackful backend (generator.h)\<close>

text \<open>
  \<^verbatim>\<open>ucontext_t\<close>, as far as the context of a generator goes: where the generator goes on
  (the rest of its computation) and how many activation records lie on its stack.
\<close>

record ucontext_t =
  uc_pc :: prog
  uc_frames :: nat

text \<open>
  \<^verbatim>\<open>struct generator\<close>. The caller's context is the control flow of the model itself.
  \<open>stack\<close> is the address of the allocated stack (\<open>None\<close> is \<^verbatim>\<open>NULL\<close>).
\<close>

record 'd generator =
  gen_context :: ucontext_t
  stack :: "nat option"
  stack_size :: size_t
  user_func :: "'d \<Rightarrow> prog"
  yielded_value :: int64_t
  state :: generator_state
  user_data :: 'd

definition DEFAULT_STACK_SIZE :: size_t where
  "DEFAULT_STACK_SIZE = 16 * 1024"

subsection \<open>Memory\<close>

text \<open>
  The heap maps the address of every live block to its content: a generator object or a
  raw block of a given number of bytes. \<^verbatim>\<open>malloc\<close> hands out a fresh address or fails
  (the first argument says which), \<^verbatim>\<open>free\<close> of an address that is not live, and every
  access through a pointer that is not live, is undefined behaviour in C and an error
  value here; so is a write beyond the end of the stack of a generator.
\<close>

datatype 'd block = Gen_block "'d generator" | Raw_block nat

record 'd heap =
  cells :: "nat \<Rightarrow> 'd block option"
  next_addr :: nat

datatype error = Use_after_free | Invalid_free | Stack_overflow

definition malloc :: "bool \<Rightarrow> 'd heap \<Rightarrow> 'd block \<Rightarrow> nat option \<times> 'd heap" where
  "malloc ok h b =
     (if ok then (Some (next_addr h),
                  h\<lparr>cells := (cells h)(next_addr h \<mapsto> b), next_addr := Suc (next_addr h)\<rparr>)
      else (None, h))"

definition release :: "'d heap \<Rightarrow> nat \<Rightarrow> 'd heap" where
  "release h a = h\<lparr>cells := (cells h)(a := None)\<rparr>"

definition free :: "'d heap \<Rightarrow> nat \<Rightarrow> error + 'd heap" where
  "free h a = (case cells h a of
                 None \<Rightarrow> Inl Invalid_free
               | Some b \<Rightarrow> Inr (release h a))"

text \<open>
  What the environment decides: whether each \<^verbatim>\<open>malloc\<close> and \<^verbatim>\<open>getcontext\<close> of
  \<^verbatim>\<open>generator_create\<close> succeeds, \<^verbatim>\<open>sizeof(generator_t)\<close>, and the number of bytes an
  activation record takes on the stack of a generator. The compiler fixes the sizes of
  the activation records, not the source; the model charges every record on that stack
  (of \<^verbatim>\<open>generator_entry_point\<close>, of the user function, of the functions it calls and of
  \<^verbatim>\<open>yield\<close> with its \<^verbatim>\<open>swapcontext\<close>) the same number of bytes, below 256. With a number
  that is at least the size of each of these records, a run that stays within the stack
  in the model does so in the program; with a number that is at most that size, one
  byte say, a run that overflows the stack in the model does so in the program.
\<close>

record env =
  malloc_gen_ok :: bool
  malloc_stack_ok :: "size_t \<Rightarrow> bool"
  getcontext_ok :: bool
  sizeof_generator_t :: nat
  frame_bytes :: "8 word"

subsection \<open>yield and the generator's side of the context switch\<close>

datatype yield_error = Yield_outside_running

text \<open>
  \<^verbatim>\<open>yield\<close>, up to its \<^verbatim>\<open>swapcontext\<close>: \<open>Inl\<close> is the branch that prints the error
  message and returns to the user function at once, \<open>Inr g'\<close> the branch that stores the
  value and switches to the caller.
\<close>

definition yield :: "'d generator option \<Rightarrow> int64_t \<Rightarrow> yield_error + 'd generator" where
  "yield self v =
     (case self of
        None \<Rightarrow> Inl Yield_outside_running
      | Some g \<Rightarrow>
          if state g \<noteq> GEN_RUNNING then Inl Yield_outside_running
          else Inr (g\<lparr>yielded_value := v, state := GEN_SUSPENDED\<rparr>))"

text \<open>
  The generator runs on the block \<^verbatim>\<open>generator_create\<close> has allocated for it
  (\<^verbatim>\<open>uc_stack.ss_sp\<close>, \<^verbatim>\<open>uc_stack.ss_size\<close>): \<open>stack_room h g\<close> is the number of bytes it has
  there. A stack pointer that does not refer to a live block, and a size beyond the end
  of the block, are errors.
\<close>

definition stack_room :: "'d heap \<Rightarrow> 'd generator \<Rightarrow> error + nat" where
  "stack_room h g =
     (case stack g of
        None \<Rightarrow> Inl Use_after_free
      | Some sa \<Rightarrow>
          (case cells h sa of
             Some (Raw_block n) \<Rightarrow>
               if n < unat (stack_size g) then Inl Stack_overflow else Inr (unat (stack_size g))
           | _ \<Rightarrow> Inl Use_after_free))"

text \<open>
  \<open>resume fb room p n g\<close> runs the generator from its saved context (the computation \<open>p\<close>
  with \<open>n\<close> activation records on the stack) until control is back with the caller: at a
  \<^verbatim>\<open>yield\<close> that switches (the context saved is the rest \<open>k\<close>), or at the end of
  \<^verbatim>\<open>generator_entry_point\<close>, which sets \<^verbatim>\<open>GEN_FINISHED\<close> after the user function has
  returned. A refused \<^verbatim>\<open>yield\<close> returns into the user function, which goes on. The context
  switches inside the generator are taken on their success path.

  The stack has \<open>room\<close> bytes and an activation record takes \<open>fb\<close> bytes. A call, of a
  function of the user's or of \<^verbatim>\<open>yield\<close>, whose activation record does not fit into the
  stack any more writes outside the block: undefined behaviour in C, the error
  \<open>Stack_overflow\<close> here.
\<close>

fun resume :: "nat \<Rightarrow> nat \<Rightarrow> prog \<Rightarrow> nat \<Rightarrow> 'd generator \<Rightarrow> error + 'd generator" where
  "resume fb room Return n g =
     Inr (g\<lparr>state := GEN_FINISHED, gen_context := \<lparr>uc_pc = Return, uc_frames = n - 1\<rparr>\<rparr>)"
| "resume fb room (Yield v k) n g =
     (if room < fb * Suc n then Inl Stack_overflow
      else case yield (Some g) v of
             Inl e \<Rightarrow> resume fb room k n g
           | Inr g' \<Rightarrow> Inr (g'\<lparr>gen_context := \<lparr>uc_pc = k, uc_frames = n\<rparr>\<rparr>))"
| "resume fb room (IfState st a b) n g =
     (if state g = st then resume fb room a n g else resume fb room b n g)"
| "resume fb room (Enter k) n g =
     (if room < fb * Suc n then Inl Stack_overflow else resume fb room k (Suc n) g)"
| "resume fb room (Leave k) n g = resume fb room k (n - 1) g"

text \<open>
  \<^verbatim>\<open>generator_entry_point\<close>, where the context made by \<^verbatim>\<open>makecontext\<close> starts: the function
  takes an activation record of its own and calls the user function, which takes another.
  What it does once the user function has returned is the case \<open>Return\<close> of \<open>resume\<close>.
\<close>

definition generator_entry_point :: "('d \<Rightarrow> prog) \<Rightarrow> 'd \<Rightarrow> prog" where
  "generator_entry_point f ud = Enter (Enter (f ud))"

subsection \<open>The public functions\<close>

definition generator_create ::
  "env \<Rightarrow> 'd heap \<Rightarrow> ('d \<Rightarrow> prog) option \<Rightarrow> 'd \<Rightarrow> size_t \<Rightarrow> nat option \<times> 'd heap" where
  "generator_create e h func ud sz =
     (case func of
        None \<Rightarrow> (None, h)
      | Some f \<Rightarrow>
          (case malloc (malloc_gen_ok e) h (Raw_block (sizeof_generator_t e)) of
             (None, h0) \<Rightarrow> (None, h0)
           | (Some ga, h1) \<Rightarrow>
               let ssz = (if sz > 0 then sz else DEFAULT_STACK_SIZE) in
               (case malloc (malloc_stack_ok e ssz) h1 (Raw_block (unat ssz)) of
                  (None, h1') \<Rightarrow> (None, release h1 ga)
                | (Some sa, h2) \<Rightarrow>
                    if \<not> getcontext_ok e then (None, release (release h2 sa) ga)
                    else
                      (Some ga,
                       h2\<lparr>cells := (cells h2)(ga \<mapsto> Gen_block
                             \<lparr>gen_context = \<lparr>uc_pc = generator_entry_point f ud, uc_frames = 0\<rparr>,
                              stack = Some sa, stack_size = ssz,
                              user_func = f, yielded_value = 0, state = GEN_SUSPENDED,
                              user_data = ud\<rparr>)\<rparr>))))"

text \<open>
  \<^verbatim>\<open>generator_next(gen, done)\<close>. \<open>done\<close> is the cell the output pointer refers to
  (\<open>None\<close>: the pointer is \<^verbatim>\<open>NULL\<close>); the result holds the heap, that cell and the
  returned value. \<open>swap_ok\<close> says whether the \<^verbatim>\<open>swapcontext\<close> of this call succeeds;
  when it does, the generator runs on its stack from its saved context until it hands
  control back.
\<close>

definition generator_next ::
  "env \<Rightarrow> bool \<Rightarrow> 'd heap \<Rightarrow> nat option \<Rightarrow> bool option
     \<Rightarrow> error + ('d heap \<times> bool option \<times> int64_t)" where
  "generator_next e swap_ok h gen done =
     (case gen of
        None \<Rightarrow> Inr (h, map_option (\<lambda>_. True) done, 0)
      | Some a \<Rightarrow>
          (case cells h a of
             Some (Gen_block g) \<Rightarrow>
               if state g = GEN_FINISHED
               then Inr (h, map_option (\<lambda>_. True) done, yielded_value g)
               else if \<not> swap_ok
               then Inr (h\<lparr>cells := (cells h)(a \<mapsto> Gen_block (g\<lparr>state := GEN_FINISHED\<rparr>))\<rparr>,
                         map_option (\<lambda>_. True) done, 0)
               else
                 (case stack_room h g of
                    Inl err \<Rightarrow> Inl err
                  | Inr room \<Rightarrow>
                      (case resume (unat (frame_bytes e)) room (uc_pc (gen_context g))
                              (uc_frames (gen_context g)) (g\<lparr>state := GEN_RUNNING\<rparr>) of
                         Inl err \<Rightarrow> Inl err
                       | Inr g' \<Rightarrow>
                           Inr (h\<lparr>cells := (cells h)(a \<mapsto> Gen_block g')\<rparr>,
                                map_option (\<lambda>_. state g' = GEN_FINISHED) done,
                                yielded_value g')))
           | _ \<Rightarrow> Inl Use_after_free))"

definition generator_destroy :: "'d heap \<Rightarrow> nat option \<Rightarrow> error + 'd heap" where
  "generator_destroy h gen =
     (case gen of
        None \<Rightarrow> Inr h
      | Some a \<Rightarrow>
          (case cells h a of
             Some (Gen_block g) \<Rightarrow>
               (case stack g of
                  None \<Rightarrow> free h a
                | Some sa \<Rightarrow>
                    (case free h sa of
                       Inl e \<Rightarrow> Inl e
                     | Inr h' \<Rightarrow> free h' a))
           | _ \<Rightarrow> Inl Use_after_free))"


section \<open>The threaded backend (generator_pthread.h)\<close>

text \<open>
  \<^verbatim>\<open>struct generator\<close> of the threaded backend: the fields shared between the caller's
  thread and the worker thread. The thread handle, the mutex and the two condition
  variables are part of the \<open>system\<close> below.
\<close>

record 'd pt_generator =
  pt_user_func :: "'d \<Rightarrow> prog"
  pt_user_data :: 'd
  pt_yielded_value :: int64_t
  pt_state :: generator_state
  pt_value_ready :: bool
  pt_started :: bool

text \<open>
  Where the worker thread stands in \<^verbatim>\<open>generator_thread_entry\<close>: before its first lock;
  blocked in the initial \<^verbatim>\<open>pthread_cond_wait\<close>; at the test before the user function;
  inside the user function, with what remains of it; blocked in the wait of \<^verbatim>\<open>yield\<close>,
  with what the user function does once \<^verbatim>\<open>yield\<close> returns; at the final section; gone.
\<close>

datatype worker_pc =
  W_entry | W_init_wait | W_check | W_user prog | W_yield_wait prog | W_final | W_exited

text \<open>
  The calls the caller's thread makes, one after the other, on the handle of the one
  generator of the system (\<open>GEN\<close>) or on \<^verbatim>\<open>NULL\<close>. \<open>Call_next h done\<close> is
  \<^verbatim>\<open>generator_next(h, done)\<close> with \<open>done\<close> as in the stackful backend; \<open>Call_yield\<close> is a
  call of \<^verbatim>\<open>yield\<close> made by the caller's thread, outside the generator.
\<close>

datatype handle = NULL | GEN

datatype call = Call_next handle "bool option" | Call_destroy handle | Call_yield handle int64_t

text \<open>
  Where the caller's thread stands: between two calls; blocked in the wait of
  \<^verbatim>\<open>generator_next\<close>; in \<^verbatim>\<open>generator_destroy\<close> after its unlock, before the first signal,
  before the second signal, blocked in \<^verbatim>\<open>pthread_join\<close>, before the cleanup; blocked in
  the wait of a \<^verbatim>\<open>yield\<close> of its own; gone, after the \<^verbatim>\<open>pthread_exit\<close> of such a \<^verbatim>\<open>yield\<close>.
\<close>

datatype caller_pc =
  C_idle | C_next_wait "bool option" | C_destroy_signal_yield | C_destroy_signal_next
  | C_join | C_cleanup | C_yield_wait | C_exited

text \<open>
  The whole system: the generator object and whether it has been freed (with its mutex
  and condition variables destroyed), both threads, for each thread whether its
  condition wait has been signalled, the calls the caller still has to make, the results
  of the \<^verbatim>\<open>generator_next\<close> calls that have returned (value and \<^verbatim>\<open>*done\<close>), whether a
  thread has used the generator object after it was freed, and whether the worker thread
  has been joined: \<^verbatim>\<open>pthread_create\<close> is called with default attributes, so the thread is
  joinable and what the system holds for it is released by \<^verbatim>\<open>pthread_join\<close> only.
\<close>

record 'd system =
  pt_gen :: "'d pt_generator"
  freed :: bool
  worker :: worker_pc
  worker_signalled :: bool
  caller :: caller_pc
  caller_signalled :: bool
  calls :: "call list"
  results :: "(int64_t \<times> bool option) list"
  fault :: bool
  joined :: bool

text \<open>
  A section of code between \<^verbatim>\<open>pthread_mutex_lock\<close> and the next \<^verbatim>\<open>pthread_mutex_unlock\<close> or
  \<^verbatim>\<open>pthread_cond_wait\<close> is one step of its thread: no other thread can see its
  intermediate states. \<^verbatim>\<open>pthread_cond_wait\<close> releases the mutex and blocks; the thread goes
  on, holding the mutex again, once it has been signalled. \<^verbatim>\<open>pthread_cond_signal\<close> wakes
  the threads blocked on that condition variable and is lost when there is none.
\<close>

fun waits_cond_yield :: "worker_pc \<Rightarrow> bool" where
  "waits_cond_yield W_init_wait = True"
| "waits_cond_yield (W_yield_wait k) = True"
| "waits_cond_yield w = False"

fun waits_cond_next :: "caller_pc \<Rightarrow> bool" where
  "waits_cond_next (C_next_wait d) = True"
| "waits_cond_next c = False"

definition signal_cond_yield :: "'d system \<Rightarrow> 'd system" where
  "signal_cond_yield s =
     s\<lparr>worker_signalled := worker_signalled s \<or> waits_cond_yield (worker s),
       caller_signalled := caller_signalled s \<or> caller s = C_yield_wait\<rparr>"

definition signal_cond_next :: "'d system \<Rightarrow> 'd system" where
  "signal_cond_next s = s\<lparr>caller_signalled := caller_signalled s \<or> waits_cond_next (caller s)\<rparr>"

subsection \<open>yield\<close>

text \<open>
  \<^verbatim>\<open>yield\<close> from its lock to its wait: the stores it makes on the generator object. There is
  no test of \<^verbatim>\<open>self->state\<close> before them. Then it signals \<^verbatim>\<open>cond_next\<close> and waits, as
  \<open>state\<close> is \<^verbatim>\<open>GEN_SUSPENDED\<close> now.
\<close>

definition pt_yield_store :: "'d pt_generator \<Rightarrow> int64_t \<Rightarrow> 'd pt_generator" where
  "pt_yield_store self v =
     self\<lparr>pt_yielded_value := v, pt_value_ready := True, pt_state := GEN_SUSPENDED\<rparr>"

subsection \<open>The worker thread\<close>

text \<open>
  The worker runs the user function on the stack of its thread, which \<^verbatim>\<open>pthread_create\<close>
  provides; the calls and returns of the user's own functions are steps of the thread
  that leave the shared state as it is.
\<close>

fun user_step :: "prog \<Rightarrow> 'd system \<Rightarrow> 'd system" where
  "user_step Return s = s\<lparr>worker := W_final\<rparr>"
| "user_step (Yield v k) s =
     (signal_cond_next (s\<lparr>pt_gen := pt_yield_store (pt_gen s) v\<rparr>))
       \<lparr>worker := W_yield_wait k, worker_signalled := False\<rparr>"
| "user_step (IfState st a b) s = s\<lparr>worker := W_user (if pt_state (pt_gen s) = st then a else b)\<rparr>"
| "user_step (Enter k) s = s\<lparr>worker := W_user k\<rparr>"
| "user_step (Leave k) s = s\<lparr>worker := W_user k\<rparr>"

fun worker_step :: "worker_pc \<Rightarrow> 'd system \<Rightarrow> 'd system" where
  "worker_step W_entry s =
     (let g = (pt_gen s)\<lparr>pt_started := True\<rparr> in
      if pt_state g = GEN_SUSPENDED \<and> pt_started g
      then s\<lparr>pt_gen := g, worker := W_init_wait, worker_signalled := False\<rparr>
      else s\<lparr>pt_gen := (if pt_state g \<noteq> GEN_FINISHED then g\<lparr>pt_state := GEN_RUNNING\<rparr> else g),
             worker := W_check\<rparr>)"
| "worker_step W_init_wait s =
     (if \<not> worker_signalled s then s
      else if pt_state (pt_gen s) = GEN_FINISHED then s\<lparr>worker := W_exited\<rparr>
      else if pt_state (pt_gen s) = GEN_SUSPENDED \<and> pt_started (pt_gen s)
      then s\<lparr>worker_signalled := False\<rparr>
      else s\<lparr>pt_gen := (pt_gen s)\<lparr>pt_state := GEN_RUNNING\<rparr>, worker := W_check\<rparr>)"
| "worker_step W_check s =
     (if pt_state (pt_gen s) = GEN_RUNNING
      then s\<lparr>worker := W_user (pt_user_func (pt_gen s) (pt_user_data (pt_gen s)))\<rparr>
      else s\<lparr>worker := W_final\<rparr>)"
| "worker_step (W_user p) s = user_step p s"
| "worker_step (W_yield_wait k) s =
     (if \<not> worker_signalled s then s
      else if pt_state (pt_gen s) = GEN_FINISHED then s\<lparr>worker := W_exited\<rparr>
      else if pt_state (pt_gen s) = GEN_SUSPENDED then s\<lparr>worker_signalled := False\<rparr>
      else s\<lparr>worker := W_user k\<rparr>)"
| "worker_step W_final s =
     (signal_cond_next (s\<lparr>pt_gen := (pt_gen s)\<lparr>pt_state := GEN_FINISHED, pt_value_ready := True\<rparr>\<rparr>))
       \<lparr>worker := W_exited\<rparr>"
| "worker_step W_exited s = s"

subsection \<open>The caller's thread\<close>

text \<open>The first section of each call, up to its first wait, unlock or return.\<close>

fun begin_call :: "call \<Rightarrow> 'd system \<Rightarrow> 'd system" where
  "begin_call (Call_next NULL done) s =
     s\<lparr>results := results s @ [(0, map_option (\<lambda>_. True) done)]\<rparr>"
| "begin_call (Call_next GEN done) s =
     (if freed s then s\<lparr>fault := True\<rparr>
      else if pt_state (pt_gen s) = GEN_FINISHED
      then s\<lparr>results := results s @ [(pt_yielded_value (pt_gen s), map_option (\<lambda>_. True) done)]\<rparr>
      else (signal_cond_yield
              (s\<lparr>pt_gen := (pt_gen s)\<lparr>pt_state := GEN_RUNNING, pt_value_ready := False\<rparr>\<rparr>))
             \<lparr>caller := C_next_wait done, caller_signalled := False\<rparr>)"
| "begin_call (Call_destroy NULL) s = s"
| "begin_call (Call_destroy GEN) s =
     (if freed s then s\<lparr>fault := True\<rparr>
      else
        let needs_join = (pt_started (pt_gen s) \<and> pt_state (pt_gen s) \<noteq> GEN_FINISHED) in
        s\<lparr>pt_gen := (pt_gen s)\<lparr>pt_state := GEN_FINISHED, pt_value_ready := True\<rparr>,
          caller := (if needs_join then C_destroy_signal_yield else C_cleanup)\<rparr>)"
| "begin_call (Call_yield NULL v) s = s"
| "begin_call (Call_yield GEN v) s =
     (if freed s then s\<lparr>fault := True\<rparr>
      else (signal_cond_next (s\<lparr>pt_gen := pt_yield_store (pt_gen s) v\<rparr>))
             \<lparr>caller := C_yield_wait, caller_signalled := False\<rparr>)"

fun caller_step :: "caller_pc \<Rightarrow> 'd system \<Rightarrow> 'd system" where
  "caller_step C_idle s =
     (case calls s of
        [] \<Rightarrow> s
      | c # cs \<Rightarrow> begin_call c (s\<lparr>calls := cs\<rparr>))"
| "caller_step (C_next_wait done) s =
     (if \<not> caller_signalled s then s
      else if \<not> pt_value_ready (pt_gen s) \<and> pt_state (pt_gen s) \<noteq> GEN_FINISHED
      then s\<lparr>caller_signalled := False\<rparr>
      else s\<lparr>results := results s @
                [(pt_yielded_value (pt_gen s),
                  map_option (\<lambda>_. pt_state (pt_gen s) = GEN_FINISHED) done)],
             caller := C_idle\<rparr>)"
| "caller_step C_destroy_signal_yield s = (signal_cond_yield s)\<lparr>caller := C_destroy_signal_next\<rparr>"
| "caller_step C_destroy_signal_next s = (signal_cond_next s)\<lparr>caller := C_join\<rparr>"
| "caller_step C_join s =
     (if worker s = W_exited then s\<lparr>caller := C_cleanup, joined := True\<rparr> else s)"
| "caller_step C_cleanup s = s\<lparr>freed := True, caller := C_idle\<rparr>"
| "caller_step C_yield_wait s =
     (if \<not> caller_signalled s then s
      else if pt_state (pt_gen s) = GEN_FINISHED then s\<lparr>caller := C_exited\<rparr>
      else if pt_state (pt_gen s) = GEN_SUSPENDED then s\<lparr>caller_signalled := False\<rparr>
      else s\<lparr>caller := C_idle\<rparr>)"
| "caller_step C_exited s = s"

subsection \<open>Schedules\<close>

text \<open>
  A schedule says which thread makes the next step; a blocked thread that is scheduled
  stays where it is. \<open>Wake_worker\<close> and \<open>Wake_caller\<close> are spurious wake-ups of a thread
  blocked in \<^verbatim>\<open>pthread_cond_wait\<close>. Once a thread has used freed memory nothing more is
  said about the system.
\<close>

datatype event = Run_caller | Run_worker | Wake_caller | Wake_worker

definition step :: "event \<Rightarrow> 'd system \<Rightarrow> 'd system" where
  "step e s =
     (if fault s then s
      else case e of
        Run_caller \<Rightarrow> caller_step (caller s) s
      | Run_worker \<Rightarrow>
          if worker s = W_exited then s
          else if freed s then s\<lparr>fault := True\<rparr>
          else worker_step (worker s) s
      | Wake_caller \<Rightarrow>
          s\<lparr>caller_signalled := caller_signalled s
               \<or> waits_cond_next (caller s) \<or> caller s = C_yield_wait\<rparr>
      | Wake_worker \<Rightarrow>
          s\<lparr>worker_signalled := worker_signalled s \<or> waits_cond_yield (worker s)\<rparr>)"

fun exec :: "event list \<Rightarrow> 'd system \<Rightarrow> 'd system" where
  "exec [] s = s"
| "exec (e # es) s = exec es (step e s)"

subsection \<open>Creation\<close>

record pt_env =
  pt_malloc_ok :: bool
  mutex_init_ok :: bool
  cond_yield_init_ok :: bool
  cond_next_init_ok :: bool
  pthread_create_ok :: bool

text \<open>
  \<^verbatim>\<open>generator_create\<close>: on success the worker thread exists and has not run yet. The
  second argument of \<open>pt_generator_create\<close> is the list of calls the caller goes on to make.
\<close>

definition pt_generator_create ::
  "pt_env \<Rightarrow> call list \<Rightarrow> ('d \<Rightarrow> prog) option \<Rightarrow> 'd \<Rightarrow> 'd system option" where
  "pt_generator_create e cs func ud =
     (case func of
        None \<Rightarrow> None
      | Some f \<Rightarrow>
          if \<not> pt_malloc_ok e then None
          else if \<not> mutex_init_ok e then None
          else if \<not> cond_yield_init_ok e then None
          else if \<not> cond_next_init_ok e then None
          else if \<not> pthread_create_ok e then None
          else Some \<lparr>pt_gen = \<lparr>pt_user_func = f, pt_user_data = ud, pt_yielded_value = 0,
                             pt_state = GEN_SUSPENDED, pt_value_ready = False,
                             pt_started = False\<rparr>,
                      freed = False, worker = W_entry, worker_signalled = False,
                      caller = C_idle, caller_signalled = False, calls = cs, results = [],
                      fault = False, joined = False\<rparr>)"


section \<open>The demonstration programs\<close>

subsection \<open>In-order traversal (bst.c, bst_pthread.c)\<close>

text \<open>\<^verbatim>\<open>TreeNode*\<close>: \<open>No_node\<close> is \<^verbatim>\<open>NULL\<close>.\<close>

datatype tree = No_node | Node (data: int32_t) (left: tree) (right: tree)

text \<open>
  \<^verbatim>\<open>inorder_recursive_helper(self, node)\<close> of bst.c. The second argument is what the
  caller of the helper does after the helper has returned, so a call of the helper is
  \<open>Enter\<close>, then its body, and a \<^verbatim>\<open>return\<close> is \<open>Leave\<close>, then that continuation.
\<close>

fun inorder_recursive_helper :: "tree \<Rightarrow> prog \<Rightarrow> prog" where
  "inorder_recursive_helper No_node k = Enter (Leave k)"
| "inorder_recursive_helper (Node d l r) k =
     Enter
       (inorder_recursive_helper l
          (IfState GEN_RUNNING
             (Yield (scast d)
                (IfState GEN_RUNNING (inorder_recursive_helper r (Leave k)) (Leave k)))
             (Leave k)))"

definition bst_inorder_recursive_generator :: "tree \<Rightarrow> prog" where
  "bst_inorder_recursive_generator root = inorder_recursive_helper root Return"

text \<open>
  The same two functions in bst_pthread.c, which test for \<^verbatim>\<open>GEN_FINISHED\<close>. They run on
  the stack of the worker thread, so their calls and returns are left out.
\<close>

fun pt_inorder_recursive_helper :: "tree \<Rightarrow> prog \<Rightarrow> prog" where
  "pt_inorder_recursive_helper No_node k = k"
| "pt_inorder_recursive_helper (Node d l r) k =
     pt_inorder_recursive_helper l
       (IfState GEN_FINISHED k
          (Yield (scast d)
             (IfState GEN_FINISHED k (pt_inorder_recursive_helper r k))))"

definition pt_bst_inorder_recursive_generator :: "tree \<Rightarrow> prog" where
  "pt_bst_inorder_recursive_generator root = pt_inorder_recursive_helper root Return"

text \<open>
  \<^verbatim>\<open>check_bst_property\<close> of bst.c. The result holds the heap, the returned truth value and
  the comparisons printed (\<^verbatim>\<open>step\<close>, \<^verbatim>\<open>value_a\<close>, \<^verbatim>\<open>value_b\<close>), in order.
\<close>

type_synonym comparison = "nat \<times> int64_t \<times> int64_t"

function check_loop ::
  "env \<Rightarrow> 'd heap \<Rightarrow> nat option \<Rightarrow> nat option \<Rightarrow> nat \<Rightarrow> comparison list
     \<Rightarrow> error + ('d heap \<times> bool \<times> comparison list)" where
  "check_loop e h gen_a gen_b nstep log =
     (case generator_next e True h gen_b (Some False) of
        Inl err \<Rightarrow> Inl err
      | Inr (h1, finished_b, value_b) \<Rightarrow>
          (case generator_next e True h1 gen_a (Some False) of
             Inl err \<Rightarrow> Inl err
           | Inr (h2, finished_a, value_a) \<Rightarrow>
               if finished_b = Some True \<or> finished_a = Some True then Inr (h2, True, log)
               else if value_a \<le>s value_b
               then Inr (h2, False, log @ [(nstep, value_a, value_b)])
               else if nstep + 1 > 100
               then Inr (h2, False, log @ [(nstep, value_a, value_b)])
               else check_loop e h2 gen_a gen_b (nstep + 1) (log @ [(nstep, value_a, value_b)])))"
  by pat_completeness auto
termination
  by (relation "measure (\<lambda>(e, h, a, b, nstep, log). 101 - nstep)") auto

definition destroy_both ::
  "'d heap \<Rightarrow> nat option \<Rightarrow> nat option \<Rightarrow> error + 'd heap" where
  "destroy_both h gen_a gen_b =
     (case generator_destroy h gen_a of
        Inl e \<Rightarrow> Inl e
      | Inr h' \<Rightarrow> generator_destroy h' gen_b)"

definition check_bst_property ::
  "env \<Rightarrow> tree heap \<Rightarrow> tree \<Rightarrow> error + (tree heap \<times> bool \<times> comparison list)" where
  "check_bst_property e h root =
     (if root = No_node then Inr (h, True, [])
      else
        let stack_size = 32 * 1024;
            (gen_a, h1) = generator_create e h (Some bst_inorder_recursive_generator) root stack_size;
            (gen_b, h2) = generator_create e h1 (Some bst_inorder_recursive_generator) root stack_size
        in if gen_a = None \<or> gen_b = None
           then (case destroy_both h2 gen_a gen_b of
                   Inl err \<Rightarrow> Inl err
                 | Inr h3 \<Rightarrow> Inr (h3, False, []))
           else
             (case generator_next e True h2 gen_a (Some False) of
                Inl err \<Rightarrow> Inl err
              | Inr (h3, finished_a, value_a) \<Rightarrow>
                  if finished_a = Some True
                  then (case destroy_both h3 gen_a gen_b of
                          Inl err \<Rightarrow> Inl err
                        | Inr h4 \<Rightarrow> Inr (h4, True, []))
                  else
                    (case check_loop e h3 gen_a gen_b 0 [] of
                       Inl err \<Rightarrow> Inl err
                     | Inr (h4, result, log) \<Rightarrow>
                         (case destroy_both h4 gen_a gen_b of
                            Inl err \<Rightarrow> Inl err
                          | Inr h5 \<Rightarrow> Inr (h5, result, log)))))"

subsection \<open>Fibonacci (fib_pthread.c)\<close>

text \<open>\<^verbatim>\<open>fib_generator_func\<close>: the loop, from its test \<^verbatim>\<open>i < 10\<close>, with the locals \<open>a\<close>, \<open>b\<close>.\<close>

function fib_loop :: "nat \<Rightarrow> int64_t \<Rightarrow> int64_t \<Rightarrow> prog" where
  "fib_loop i a b =
     (if i < 10
      then Yield a
             (let next_a = b; next_b = a + b in
              if next_a <s 0 \<or> next_b <s 0 then Return
              else fib_loop (i + 1) next_a next_b)
      else Return)"
  by pat_completeness auto
termination
  by (relation "measure (\<lambda>(i, a, b). 10 - i)") auto

definition fib_generator_func :: "unit \<Rightarrow> prog" where
  "fib_generator_func self = fib_loop 0 1 1"


section \<open>Notions used to state the properties\<close>

subsection \<open>What a run yields and what the caller is to see\<close>

text \<open>
  The \<^verbatim>\<open>yield\<close> calls a user function makes, in order, in a run in which every test of
  \<^verbatim>\<open>self->state\<close> it makes sees \<^verbatim>\<open>GEN_RUNNING\<close>, the state \<^verbatim>\<open>generator_next\<close> sets before it
  hands control to the generator.
\<close>

fun yields :: "prog \<Rightarrow> int64_t list" where
  "yields Return = []"
| "yields (Yield v k) = v # yields k"
| "yields (IfState st a b) = (if st = GEN_RUNNING then yields a else yields b)"
| "yields (Enter k) = yields k"
| "yields (Leave k) = yields k"

text \<open>
  The largest number of activation records that lie on the stack at one time in such a
  run, from a moment at which \<open>n\<close> records lie there; a call of \<^verbatim>\<open>yield\<close> puts one there
  as well. \<open>stack_needed\<close> is that number for the whole run of a user function, from the
  entry of \<^verbatim>\<open>generator_entry_point\<close>.
\<close>

fun frames_needed :: "prog \<Rightarrow> nat \<Rightarrow> nat" where
  "frames_needed Return n = n"
| "frames_needed (Yield v k) n = max (Suc n) (frames_needed k n)"
| "frames_needed (IfState st a b) n =
     (if st = GEN_RUNNING then frames_needed a n else frames_needed b n)"
| "frames_needed (Enter k) n = frames_needed k (Suc n)"
| "frames_needed (Leave k) n = max n (frames_needed k (n - 1))"

definition stack_needed :: "('d \<Rightarrow> prog) \<Rightarrow> 'd \<Rightarrow> nat" where
  "stack_needed f ud = frames_needed (generator_entry_point f ud) 0"

text \<open>
  The results (value, finished) of \<open>n\<close> successive \<^verbatim>\<open>generator_next\<close> calls on a generator
  whose last value is \<open>v0\<close> and which still has \<open>ys\<close> to yield: one yielded value for each
  call, then the last value with finished set.
\<close>

fun next_results :: "int64_t \<Rightarrow> int64_t list \<Rightarrow> nat \<Rightarrow> (int64_t \<times> bool) list" where
  "next_results v0 ys 0 = []"
| "next_results v0 [] (Suc n) = (v0, True) # next_results v0 [] n"
| "next_results v0 (y # ys) (Suc n) = (y, False) # next_results y ys n"

text \<open>
  A caller of the stackful backend that makes \<open>n\<close> calls
  \<^verbatim>\<open>value = generator_next(gen, &finished)\<close> and records what each returns; the context
  switch of each call succeeds.
\<close>

fun repeat_next ::
  "env \<Rightarrow> nat \<Rightarrow> 'd heap \<Rightarrow> nat option \<Rightarrow> error + ('d heap \<times> (int64_t \<times> bool) list)" where
  "repeat_next e 0 h gen = Inr (h, [])"
| "repeat_next e (Suc n) h gen =
     (case generator_next e True h gen (Some False) of
        Inl err \<Rightarrow> Inl err
      | Inr (h', finished, v) \<Rightarrow>
          (case repeat_next e n h' gen of
             Inl err \<Rightarrow> Inl err
           | Inr (h'', rs) \<Rightarrow> Inr (h'', (v, finished = Some True) # rs)))"

text \<open>The same caller in the threaded backend, as a list of calls, and its results.\<close>

definition next_calls :: "nat \<Rightarrow> call list" where
  "next_calls n = replicate n (Call_next GEN (Some False))"

definition lift_results :: "(int64_t \<times> bool) list \<Rightarrow> (int64_t \<times> bool option) list" where
  "lift_results rs = map (\<lambda>(v, f). (v, Some f)) rs"

text \<open>The caller has made all its calls and the last one has returned.\<close>

definition finished :: "'d system \<Rightarrow> bool" where
  "finished s = (caller s = C_idle \<and> calls s = [])"

text \<open>Every value after the first two is the sum of the two before it.\<close>

fun sums_of_previous_two :: "int64_t list \<Rightarrow> bool" where
  "sums_of_previous_two (a # b # c # xs) = (c = a + b \<and> sums_of_previous_two (b # c # xs))"
| "sums_of_previous_two xs = True"

subsection \<open>Environments in which every allocation succeeds\<close>

text \<open>In \<open>env_ok\<close> an activation record takes 64 bytes.\<close>

definition env_ok :: env where
  "env_ok = \<lparr>malloc_gen_ok = True, malloc_stack_ok = (\<lambda>n. True), getcontext_ok = True,
             sizeof_generator_t = 1024, frame_bytes = 64\<rparr>"

definition pt_env_ok :: pt_env where
  "pt_env_ok = \<lparr>pt_malloc_ok = True, mutex_init_ok = True, cond_yield_init_ok = True,
                cond_next_init_ok = True, pthread_create_ok = True\<rparr>"

definition empty_heap :: "'d heap" where
  "empty_heap = \<lparr>cells = (\<lambda>a. None), next_addr = 1\<rparr>"

subsection \<open>Binary search trees\<close>

text \<open>
  The direct recursive in-order traversal the generator is compared with, and the
  validity of a binary search tree (keys are compared as signed integers): every key of
  the left subtree is below the key of the node, every key of the right subtree above.
\<close>

fun inorder_direct :: "tree \<Rightarrow> int32_t list" where
  "inorder_direct No_node = []"
| "inorder_direct (Node d l r) = inorder_direct l @ d # inorder_direct r"

text \<open>
  The height of a tree, and the tree of \<open>n\<close> nodes in which every node is the left child
  of the one before, with the keys \<open>n - 1\<close>, ..., 0 from the root down.
\<close>

fun tree_height :: "tree \<Rightarrow> nat" where
  "tree_height No_node = 0"
| "tree_height (Node d l r) = Suc (max (tree_height l) (tree_height r))"

fun left_chain :: "nat \<Rightarrow> tree" where
  "left_chain 0 = No_node"
| "left_chain (Suc n) = Node (of_nat n) (left_chain n) No_node"

fun is_bst :: "tree \<Rightarrow> bool" where
  "is_bst No_node = True"
| "is_bst (Node d l r) =
     (is_bst l \<and> is_bst r
      \<and> (\<forall>x \<in> set (inorder_direct l). x <s d) \<and> (\<forall>x \<in> set (inorder_direct r). d <s x))"

definition tree_valid :: tree where
  "tree_valid = Node 50 (Node 30 No_node (Node 40 No_node No_node)) (Node 70 No_node No_node)"

definition tree_invalid :: tree where
  "tree_invalid = Node 50 (Node 30 No_node (Node 60 No_node No_node)) (Node 70 No_node No_node)"

subsection \<open>The invariant of the threaded backend\<close>

text \<open>
  The callers considered: some calls \<^verbatim>\<open>generator_next(gen, &finished)\<close>, then possibly
  one \<^verbatim>\<open>generator_destroy(gen)\<close>.
\<close>

fun calls_ok :: "call list \<Rightarrow> bool" where
  "calls_ok [] = True"
| "calls_ok (Call_next GEN (Some False) # cs) = calls_ok cs"
| "calls_ok [Call_destroy GEN] = True"
| "calls_ok cs = False"

fun nexts_in :: "call list \<Rightarrow> nat" where
  "nexts_in [] = 0"
| "nexts_in (Call_next h d # cs) = Suc (nexts_in cs)"
| "nexts_in (c # cs) = nexts_in cs"

text \<open>
  The combinations of positions of the two threads and of values of the shared fields
  that occur with such a caller, as long as \<^verbatim>\<open>generator_destroy\<close> is not its first call.
\<close>

definition shape :: "'d system \<Rightarrow> bool" where
  "shape s =
     (let g = pt_gen s; st = pt_state g; vr = pt_value_ready g in
      case caller s of
        C_idle \<Rightarrow>
          (case worker s of
             W_entry \<Rightarrow> \<not> freed s \<and> st = GEN_SUSPENDED \<and> \<not> pt_started g
                         \<and> calls s \<noteq> [Call_destroy GEN]
           | W_init_wait \<Rightarrow> \<not> freed s \<and> st = GEN_SUSPENDED \<and> pt_started g
           | W_yield_wait k \<Rightarrow> \<not> freed s \<and> st = GEN_SUSPENDED \<and> pt_started g
           | W_exited \<Rightarrow> st = GEN_FINISHED \<and> (freed s \<longrightarrow> calls s = [])
           | _ \<Rightarrow> False)
      | C_next_wait d \<Rightarrow>
          \<not> freed s \<and> d = Some False \<and>
          (case worker s of
             W_entry \<Rightarrow> st = GEN_RUNNING \<and> \<not> vr \<and> \<not> pt_started g
           | W_init_wait \<Rightarrow> st = GEN_RUNNING \<and> \<not> vr \<and> pt_started g \<and> worker_signalled s
           | W_check \<Rightarrow> st = GEN_RUNNING \<and> \<not> vr \<and> pt_started g
           | W_user k \<Rightarrow> st = GEN_RUNNING \<and> \<not> vr \<and> pt_started g
           | W_final \<Rightarrow> st = GEN_RUNNING \<and> \<not> vr \<and> pt_started g
           | W_yield_wait k \<Rightarrow>
               pt_started g \<and>
               (st = GEN_SUSPENDED \<and> vr \<and> caller_signalled s
                \<or> st = GEN_RUNNING \<and> \<not> vr \<and> worker_signalled s)
           | W_exited \<Rightarrow> st = GEN_FINISHED \<and> vr \<and> caller_signalled s)
      | C_destroy_signal_yield \<Rightarrow>
          \<not> freed s \<and> calls s = [] \<and> st = GEN_FINISHED
          \<and> (waits_cond_yield (worker s) \<or> worker s = W_exited)
      | C_destroy_signal_next \<Rightarrow>
          \<not> freed s \<and> calls s = [] \<and> st = GEN_FINISHED
          \<and> (waits_cond_yield (worker s) \<and> worker_signalled s \<or> worker s = W_exited)
      | C_join \<Rightarrow>
          \<not> freed s \<and> calls s = [] \<and> st = GEN_FINISHED
          \<and> (waits_cond_yield (worker s) \<and> worker_signalled s \<or> worker s = W_exited)
      | C_cleanup \<Rightarrow> \<not> freed s \<and> calls s = [] \<and> st = GEN_FINISHED \<and> worker s = W_exited
      | _ \<Rightarrow> False)"

definition good :: "'d system \<Rightarrow> bool" where
  "good s = (\<not> fault s \<and> calls_ok (calls s) \<and> shape s)"

text \<open>
  What the \<^verbatim>\<open>generator_next\<close> calls that have not returned yet are going to return, read off
  the current state.
\<close>

definition future :: "'d system \<Rightarrow> (int64_t \<times> bool) list" where
  "future s =
     (let g = pt_gen s; yv = pt_yielded_value g; n = nexts_in (calls s);
          p0 = pt_user_func g (pt_user_data g) in
      case caller s of
        C_idle \<Rightarrow>
          (case worker s of
             W_yield_wait k \<Rightarrow> next_results yv (yields k) n
           | W_exited \<Rightarrow> next_results yv [] n
           | _ \<Rightarrow> next_results yv (yields p0) n)
      | C_next_wait d \<Rightarrow>
          (case worker s of
             W_yield_wait k \<Rightarrow>
               if pt_state g = GEN_SUSPENDED then (yv, False) # next_results yv (yields k) n
               else next_results yv (yields k) (Suc n)
           | W_exited \<Rightarrow> (yv, True) # next_results yv [] n
           | W_user k \<Rightarrow> next_results yv (yields k) (Suc n)
           | W_final \<Rightarrow> next_results yv [] (Suc n)
           | _ \<Rightarrow> next_results yv (yields p0) (Suc n))
      | _ \<Rightarrow> [])"

definition all_results :: "'d system \<Rightarrow> (int64_t \<times> bool option) list" where
  "all_results s = results s @ lift_results (future s)"




text \<open>The worker thread is inside the user function.\<close>

fun in_user_code :: "worker_pc \<Rightarrow> bool" where
  "in_user_code (W_user k) = True"
| "in_user_code w = False"

subsection \<open>A schedule under which the caller gets through\<close>

text \<open>
  A bound on the number of steps the two threads still have to make, and the thread to
  run next: the one that is not blocked.
\<close>

fun worker_left :: "'d pt_generator \<Rightarrow> worker_pc \<Rightarrow> nat" where
  "worker_left g W_entry = 2 * size (pt_user_func g (pt_user_data g)) + 5"
| "worker_left g W_init_wait = 2 * size (pt_user_func g (pt_user_data g)) + 4"
| "worker_left g W_check = 2 * size (pt_user_func g (pt_user_data g)) + 3"
| "worker_left g (W_user k) = 2 * size k + 2"
| "worker_left g (W_yield_wait k) = 2 * size k + 3"
| "worker_left g W_final = 1"
| "worker_left g W_exited = 0"

fun caller_left :: "caller_pc \<Rightarrow> nat" where
  "caller_left C_idle = 0"
| "caller_left (C_next_wait d) = 1"
| "caller_left C_destroy_signal_yield = 4"
| "caller_left C_destroy_signal_next = 3"
| "caller_left C_join = 2"
| "caller_left C_cleanup = 1"
| "caller_left c = 0"

definition steps_left :: "'d system \<Rightarrow> nat" where
  "steps_left s =
     worker_left (pt_gen s) (worker s) + caller_left (caller s) + 6 * length (calls s)"

definition pick :: "'d system \<Rightarrow> event" where
  "pick s =
     (case caller s of
        C_next_wait d \<Rightarrow>
          if pt_value_ready (pt_gen s) \<or> pt_state (pt_gen s) = GEN_FINISHED then Run_caller
          else Run_worker
      | C_join \<Rightarrow> if worker s = W_exited then Run_caller else Run_worker
      | _ \<Rightarrow> Run_caller)"

fun fair_schedule :: "nat \<Rightarrow> 'd system \<Rightarrow> event list" where
  "fair_schedule 0 s = []"
| "fair_schedule (Suc n) s =
     (if finished s then [] else pick s # fair_schedule n (step (pick s) s))"

subsection \<open>Concrete instances\<close>

text \<open>
  A stackful generator that has finished with last value 5, in a heap of its own, and the
  threaded system of a user function that returns at once, called twice.
\<close>

definition finished_generator :: "unit generator" where
  "finished_generator =
     \<lparr>gen_context = \<lparr>uc_pc = Return, uc_frames = 1\<rparr>, stack = Some 2,
      stack_size = DEFAULT_STACK_SIZE, user_func = (\<lambda>u. Return), yielded_value = 5,
      state = GEN_FINISHED, user_data = ()\<rparr>"

definition finished_heap :: "unit heap" where
  "finished_heap =
     \<lparr>cells = (\<lambda>a. if a = 1 then Some (Gen_block finished_generator)
                    else if a = 2 then Some (Raw_block 16384) else None),
      next_addr = 3\<rparr>"

definition returning_system :: "unit system" where
  "returning_system = the (pt_generator_create pt_env_ok (next_calls 2) (Some (\<lambda>u. Return)) ())"

definition run_to_finish :: "event list" where
  "run_to_finish = [Run_caller, Run_worker, Run_worker, Run_worker, Run_worker]"

text \<open>
  A user function that yields 7, then 9, then returns, with the heap of its stackful
  generator, its threaded system for three calls of \<^verbatim>\<open>generator_next\<close> and a schedule that
  lets them all return; the same for the in-order generator on \<open>tree_invalid\<close> and five
  calls.
\<close>

definition two_yields :: "unit \<Rightarrow> prog" where
  "two_yields u = Yield 7 (Yield 9 Return)"

definition two_yields_heap :: "unit heap" where
  "two_yields_heap = snd (generator_create env_ok empty_heap (Some two_yields) () 0)"

definition two_yields_system :: "unit system" where
  "two_yields_system = the (pt_generator_create pt_env_ok (next_calls 3) (Some two_yields) ())"

definition two_yields_schedule :: "event list" where
  "two_yields_schedule =
     [Run_caller, Run_worker, Run_worker, Run_worker, Run_caller, Run_caller,
      Run_worker, Run_worker, Run_caller, Run_caller, Run_worker, Run_worker,
      Run_worker, Run_caller]"

definition bst_system :: "tree system" where
  "bst_system = the (pt_generator_create pt_env_ok (next_calls 5) (Some pt_bst_inorder_recursive_generator) tree_invalid)"

definition bst_schedule :: "event list" where
  "bst_schedule = 
  [Run_caller, Run_worker, Run_worker, Run_worker, Run_worker, Run_caller,
  Run_caller, Run_worker, Run_worker, Run_worker, Run_worker, Run_caller,
  Run_caller, Run_worker, Run_worker, Run_worker, Run_worker, Run_caller,
  Run_caller, Run_worker, Run_worker, Run_worker, Run_worker, Run_caller,
  Run_caller, Run_worker, Run_worker, Run_worker, Run_worker, Run_caller]"

definition bst_heap :: "tree heap" where
  "bst_heap = snd (generator_create env_ok empty_heap (Some bst_inorder_recursive_generator) tree_invalid 0)"

text \<open>
  The threaded system of the Fibonacci generator for eleven calls of \<^verbatim>\<open>generator_next\<close>,
  and a schedule that lets them all return.
\<close>

definition fib_system :: "unit system" where
  "fib_system = the (pt_generator_create pt_env_ok (next_calls 11) (Some fib_generator_func) ())"

definition fib_schedule :: "event list" where
  "fib_schedule =
     [Run_caller, Run_worker, Run_worker, Run_worker, Run_caller, Run_caller,
      Run_worker, Run_worker, Run_caller, Run_caller, Run_worker, Run_worker,
      Run_caller, Run_caller, Run_worker, Run_worker, Run_caller, Run_caller,
      Run_worker, Run_worker, Run_caller, Run_caller, Run_worker, Run_worker,
      Run_caller, Run_caller, Run_worker, Run_worker, Run_caller, Run_caller,
      Run_worker, Run_worker, Run_caller, Run_caller, Run_worker, Run_worker,
      Run_caller, Run_caller, Run_worker, Run_worker, Run_caller, Run_caller,
      Run_worker, Run_worker, Run_worker, Run_caller]"

text \<open>
  Threaded systems whose caller destroys the generator as its first call, calls \<^verbatim>\<open>yield\<close>
  itself after the generator has finished (after \<open>two_yields\<close> has, after a function that
  returns at once has), destroys it twice, or destroys it after one \<^verbatim>\<open>generator_next\<close>
  (with \<open>two_yields\<close> suspended, with a function that returns at once finished); the heap
  left by destroying the stackful generator of \<open>two_yields\<close>, and that generator as
  created; the heap in which the in-order generator has been created, with the stack size
  of bst.c, on the tree of 40000 nodes each of which is the left child of the one before.
\<close>

definition early_destroy_system :: "unit system" where
  "early_destroy_system =
     the (pt_generator_create pt_env_ok [Call_destroy GEN] (Some fib_generator_func) ())"

definition yield_after_finish_system :: "unit system" where
  "yield_after_finish_system =
     the (pt_generator_create pt_env_ok (next_calls 3 @ [Call_yield GEN 1])
            (Some two_yields) ())"

definition return_destroy_system :: "unit system" where
  "return_destroy_system =
     the (pt_generator_create pt_env_ok (next_calls (Suc 0) @ [Call_destroy GEN])
            (Some (\<lambda>u. Return)) ())"

definition deep_heap :: "tree heap" where
  "deep_heap =
     snd (generator_create env_ok empty_heap (Some bst_inorder_recursive_generator)
            (left_chain 40000) (32 * 1024))"

definition misuse_system :: "unit system" where
  "misuse_system =
     the (pt_generator_create pt_env_ok [Call_next GEN (Some False), Call_yield GEN 7]
            (Some (\<lambda>u. Return)) ())"






subsection \<open>The lock-step comparison on lists\<close>

text \<open>
  What the loop of \<^verbatim>\<open>check_bst_property\<close> computes, on the values the two generators still
  have to yield (generator A first, which is one step ahead): the result and the
  comparisons printed.
\<close>

fun lockstep ::
  "int64_t list \<Rightarrow> int64_t list \<Rightarrow> nat \<Rightarrow> comparison list \<Rightarrow> bool \<times> comparison list" where
  "lockstep (a # as) (b # bs) n log =
     (if a \<le>s b then (False, log @ [(n, a, b)])
      else if n + 1 > 100 then (False, log @ [(n, a, b)])
      else lockstep as bs (n + 1) (log @ [(n, a, b)]))"
| "lockstep as bs n log = (True, log)"

definition lockstep_check :: "int64_t list \<Rightarrow> bool \<times> comparison list" where
  "lockstep_check ks = (case ks of [] \<Rightarrow> (True, []) | k # ks' \<Rightarrow> lockstep ks' (k # ks') 0 [])"

subsection \<open>The state of a stackful generator between two calls\<close>

text \<open>
  What a generator still has to yield and the number of activation records the rest of
  its run needs, read off its saved context. \<open>settled\<close> holds of a generator that has
  nothing left to yield once it is finished; \<open>live_at h a g room\<close> says that \<open>g\<close> is the
  generator object at address \<open>a\<close> of the heap, settled, with a stack of \<open>room\<close> bytes in a
  live block of its own; \<open>created_generator\<close> is the object \<^verbatim>\<open>generator_create\<close>
  initialises.
\<close>

definition pending :: "'d generator \<Rightarrow> int64_t list" where
  "pending g = yields (uc_pc (gen_context g))"

definition frames_left :: "'d generator \<Rightarrow> nat" where
  "frames_left g = frames_needed (uc_pc (gen_context g)) (uc_frames (gen_context g))"

definition settled :: "'d generator \<Rightarrow> bool" where
  "settled g = (state g = GEN_FINISHED \<longrightarrow> pending g = [])"

definition live_at :: "'d heap \<Rightarrow> nat \<Rightarrow> 'd generator \<Rightarrow> nat \<Rightarrow> bool" where
  "live_at h a g room =
     (cells h a = Some (Gen_block g) \<and> settled g \<and> stack g \<noteq> Some a
      \<and> stack_room h g = Inr room)"

definition created_generator :: "('d \<Rightarrow> prog) \<Rightarrow> 'd \<Rightarrow> size_t \<Rightarrow> nat \<Rightarrow> 'd generator" where
  "created_generator f ud sz sa =
     \<lparr>gen_context = \<lparr>uc_pc = generator_entry_point f ud, uc_frames = 0\<rparr>, stack = Some sa,
      stack_size = sz, user_func = f, yielded_value = 0, state = GEN_SUSPENDED,
      user_data = ud\<rparr>"

section \<open>Properties of the stackful backend\<close>

lemma yield_refused:
  "state g \<noteq> GEN_RUNNING \<Longrightarrow> yield (Some g) v = Inl Yield_outside_running"
  by (simp add: yield_def)

lemma frames_needed_ge: "n \<le> frames_needed p n"
  by (induction p arbitrary: n) (auto simp: le_max_iff_disj intro: Suc_leD)

lemma overflow_mono: "room < fb * a \<Longrightarrow> a \<le> b \<Longrightarrow> room < fb * (b::nat)"
  by (meson less_le_trans mult_le_mono2)

lemma resume_running:
  "state g = GEN_RUNNING \<Longrightarrow>
     (resume fb room p n g = Inl err \<longrightarrow>
        err = Stack_overflow \<and> room < fb * frames_needed p n)
     \<and> (resume fb room p n g = Inr g' \<longrightarrow>
          yields (uc_pc (gen_context g')) = tl (yields p)
          \<and> state g' = (if yields p = [] then GEN_FINISHED else GEN_SUSPENDED)
          \<and> yielded_value g' = (if yields p = [] then yielded_value g else hd (yields p))
          \<and> stack g' = stack g \<and> stack_size g' = stack_size g
          \<and> frames_needed (uc_pc (gen_context g')) (uc_frames (gen_context g')) \<le> frames_needed p n)"
proof (induction p arbitrary: n)
  case Return
  then show ?case by auto
next
  case (Yield v k)
  have "room < fb * Suc n \<Longrightarrow> room < fb * max (Suc n) (frames_needed k n)"
    using overflow_mono [of room fb "Suc n" "max (Suc n) (frames_needed k n)"] by simp
  with Yield.prems show ?case
    by (auto simp: yield_def)
next
  case (IfState st a b)
  from IfState.IH(1) [OF IfState.prems, of n] IfState.IH(2) [OF IfState.prems, of n]
  show ?case using IfState.prems by (cases "st = GEN_RUNNING") simp_all
next
  case (Enter k)
  have "room < fb * Suc n \<Longrightarrow> room < fb * frames_needed k (Suc n)"
    using overflow_mono [of room fb "Suc n" "frames_needed k (Suc n)"] frames_needed_ge [of "Suc n" k]
    by simp
  with Enter.IH [OF Enter.prems, of "Suc n"] show ?case by auto
next
  case (Leave k)
  have "room < fb * frames_needed k (n - 1) \<Longrightarrow> room < fb * max n (frames_needed k (n - 1))"
    using overflow_mono [of room fb "frames_needed k (n - 1)" "max n (frames_needed k (n - 1))"]
    by simp
  with Leave.IH [OF Leave.prems, of "n - 1"] show ?case by auto
qed

lemma next_results_unfinished:
  "map fst (filter (\<lambda>r. \<not> snd r) (next_results v ys n)) = take n ys"
  by (induction v ys n rule: next_results.induct) auto

lemma next_results_finished: "next_results v [] n = replicate n (v, True)"
  by (induction n) auto

lemma next_results_complete:
  "length ys \<le> n \<Longrightarrow>
     next_results v ys n = map (\<lambda>y. (y, False)) ys @ replicate (n - length ys) (last (v # ys), True)"
proof (induction v ys n rule: next_results.induct)
  case (1 v0 ys)
  then show ?case by simp
next
  case (2 v0 n)
  then show ?case by (simp add: next_results_finished)
next
  case (3 v0 y ys n)
  then show ?case by simp
qed

lemma stack_room_cells:
  "cells h' = (cells h)(b \<mapsto> blk) \<Longrightarrow> stack g \<noteq> Some b \<Longrightarrow> stack_room h' g = stack_room h g"
  by (auto simp: stack_room_def split: option.splits block.splits)

lemma stack_room_fields:
  "stack g' = stack g \<Longrightarrow> stack_size g' = stack_size g \<Longrightarrow> stack_room h g' = stack_room h g"
  by (auto simp: stack_room_def split: option.splits block.splits)

lemma live_at_other:
  "live_at h a g room \<Longrightarrow> cells h' = (cells h)(b \<mapsto> blk) \<Longrightarrow> b \<noteq> a \<Longrightarrow> stack g \<noteq> Some b \<Longrightarrow>
     live_at h' a g room"
  by (simp add: live_at_def stack_room_cells)

lemma generator_next_cases:
  assumes l: "live_at h a g room"
  shows "(generator_next e True h (Some a) (Some d) = Inl Stack_overflow
            \<and> room < unat (frame_bytes e) * frames_left g)
         \<or> (\<exists>h' g'. generator_next e True h (Some a) (Some d)
                        = Inr (h', Some (pending g = []),
                               (if pending g = [] then yielded_value g else hd (pending g)))
               \<and> cells h' = (cells h)(a \<mapsto> Gen_block g') \<and> live_at h' a g' room
               \<and> pending g' = tl (pending g) \<and> stack g' = stack g
               \<and> frames_left g' \<le> frames_left g
               \<and> yielded_value g' = (if pending g = [] then yielded_value g else hd (pending g)))"
proof (cases "state g = GEN_FINISHED")
  case True
  with l have "generator_next e True h (Some a) (Some d)
                        = Inr (h, Some (pending g = []),
                               (if pending g = [] then yielded_value g else hd (pending g)))
               \<and> cells h = (cells h)(a \<mapsto> Gen_block g) \<and> live_at h a g room
               \<and> pending g = tl (pending g) \<and> stack g = stack g
               \<and> frames_left g \<le> frames_left g
               \<and> yielded_value g = (if pending g = [] then yielded_value g else hd (pending g))"
    by (auto simp: generator_next_def settled_def live_at_def)
  then show ?thesis by blast
next
  case False
  let ?r = "resume (unat (frame_bytes e)) room (uc_pc (gen_context g))
              (uc_frames (gen_context g)) (g\<lparr>state := GEN_RUNNING\<rparr>)"
  from l have c: "cells h a = Some (Gen_block g)" and sr: "stack_room h g = Inr room"
    and sa: "stack g \<noteq> Some a" by (simp_all add: live_at_def)
  show ?thesis
  proof (cases ?r)
    case (Inl err)
    with resume_running [of "g\<lparr>state := GEN_RUNNING\<rparr>" "unat (frame_bytes e)" room
        "uc_pc (gen_context g)" "uc_frames (gen_context g)" err]
    have "err = Stack_overflow" "room < unat (frame_bytes e) * frames_left g"
      by (simp_all add: frames_left_def)
    with Inl False c sr show ?thesis
      by (simp add: generator_next_def)
  next
    case (Inr g')
    let ?h = "h\<lparr>cells := (cells h)(a \<mapsto> Gen_block g')\<rparr>"
    from Inr resume_running [of "g\<lparr>state := GEN_RUNNING\<rparr>" "unat (frame_bytes e)" room
        "uc_pc (gen_context g)" "uc_frames (gen_context g)" _ g']
    have r: "pending g' = tl (pending g)"
      "state g' = (if pending g = [] then GEN_FINISHED else GEN_SUSPENDED)"
      "yielded_value g' = (if pending g = [] then yielded_value g else hd (pending g))"
      "stack g' = stack g" "stack_size g' = stack_size g"
      "frames_left g' \<le> frames_left g"
      by (simp_all add: frames_left_def pending_def)
    have "stack_room ?h g' = stack_room h g'"
      by (rule stack_room_cells [where b = a and blk = "Gen_block g'"]) (simp_all add: r sa)
    also have "\<dots> = stack_room h g" by (rule stack_room_fields) (simp_all add: r)
    finally have sr': "stack_room ?h g' = Inr room" by (simp add: sr)
    have l': "live_at ?h a g' room"
      using r sa sr' by (auto simp: live_at_def settled_def split: if_splits)
    have n: "generator_next e True h (Some a) (Some d)
               = Inr (?h, Some (pending g = []),
                      (if pending g = [] then yielded_value g else hd (pending g)))"
      using Inr False c sr r by (simp add: generator_next_def)
    have "cells ?h = (cells h)(a \<mapsto> Gen_block g')" by simp
    with n l' r show ?thesis by blast
  qed
qed

lemma generator_next_live:
  assumes l: "live_at h a g room" and f: "unat (frame_bytes e) * frames_left g \<le> room"
  shows "\<exists>h' g'. generator_next e True h (Some a) (Some d)
                   = Inr (h', Some (pending g = []),
                          (if pending g = [] then yielded_value g else hd (pending g)))
           \<and> cells h' = (cells h)(a \<mapsto> Gen_block g') \<and> live_at h' a g' room
           \<and> pending g' = tl (pending g) \<and> stack g' = stack g
           \<and> unat (frame_bytes e) * frames_left g' \<le> room"
proof -
  from generator_next_cases [OF l, of e d] f obtain h' g' where
    n: "generator_next e True h (Some a) (Some d)
          = Inr (h', Some (pending g = []),
                 (if pending g = [] then yielded_value g else hd (pending g)))"
    and r: "cells h' = (cells h)(a \<mapsto> Gen_block g')" "live_at h' a g' room"
      "pending g' = tl (pending g)" "stack g' = stack g"
    and m: "frames_left g' \<le> frames_left g"
    by auto
  have "unat (frame_bytes e) * frames_left g' \<le> unat (frame_bytes e) * frames_left g"
    using m by (rule mult_le_mono2)
  from this f have "unat (frame_bytes e) * frames_left g' \<le> room" by (rule order_trans)
  with n r show ?thesis by blast
qed

lemma repeat_next_cases:
  "live_at h a g room \<Longrightarrow>
     (repeat_next e n h (Some a) = Inl Stack_overflow
        \<and> room < unat (frame_bytes e) * frames_left g)
     \<or> (\<exists>h'. repeat_next e n h (Some a)
                = Inr (h', next_results (yielded_value g) (pending g) n))"
proof (induction n arbitrary: h g)
  case 0
  then show ?case by simp
next
  case (Suc n)
  from generator_next_cases [OF Suc.prems, of e False]
  show ?case
  proof
    assume "generator_next e True h (Some a) (Some False) = Inl Stack_overflow
            \<and> room < unat (frame_bytes e) * frames_left g"
    then show ?thesis by simp
  next
    assume "\<exists>h' g'. generator_next e True h (Some a) (Some False)
                        = Inr (h', Some (pending g = []),
                               (if pending g = [] then yielded_value g else hd (pending g)))
               \<and> cells h' = (cells h)(a \<mapsto> Gen_block g') \<and> live_at h' a g' room
               \<and> pending g' = tl (pending g) \<and> stack g' = stack g
               \<and> frames_left g' \<le> frames_left g
               \<and> yielded_value g' = (if pending g = [] then yielded_value g else hd (pending g))"
    then obtain h1 g1 where
      n: "generator_next e True h (Some a) (Some False)
            = Inr (h1, Some (pending g = []),
                   (if pending g = [] then yielded_value g else hd (pending g)))"
      and l1: "live_at h1 a g1 room" and p1: "pending g1 = tl (pending g)"
      and f1: "frames_left g1 \<le> frames_left g"
      and v1: "yielded_value g1 = (if pending g = [] then yielded_value g else hd (pending g))"
      by blast
    from Suc.IH [OF l1] show ?thesis
    proof
      assume "repeat_next e n h1 (Some a) = Inl Stack_overflow
                \<and> room < unat (frame_bytes e) * frames_left g1"
      with n overflow_mono [OF _ f1] show ?thesis by simp
    next
      assume "\<exists>h'. repeat_next e n h1 (Some a)
                = Inr (h', next_results (yielded_value g1) (pending g1) n)"
      then obtain h' where
        "repeat_next e n h1 (Some a) = Inr (h', next_results (yielded_value g1) (pending g1) n)"
        by blast
      with n p1 v1 show ?thesis by (cases "pending g") simp_all
    qed
  qed
qed

lemma repeat_next_live:
  "live_at h a g room \<Longrightarrow> unat (frame_bytes e) * frames_left g \<le> room \<Longrightarrow>
     \<exists>h'. repeat_next e n h (Some a) = Inr (h', next_results (yielded_value g) (pending g) n)"
  using repeat_next_cases [of h a g room e n] by auto

lemma generator_create_live:
  assumes "generator_create e h (Some f) ud sz = (Some a, h1)"
  shows "\<exists>g sa. cells h1 a = Some (Gen_block g)
           \<and> gen_context g = \<lparr>uc_pc = generator_entry_point f ud, uc_frames = 0\<rparr>
           \<and> state g = GEN_SUSPENDED \<and> yielded_value g = 0 \<and> user_data g = ud
           \<and> stack g = Some sa \<and> sa \<noteq> a
           \<and> stack_size g = (if sz = 0 then DEFAULT_STACK_SIZE else sz)
           \<and> cells h1 sa = Some (Raw_block (unat (stack_size g)))"
  using assms
  by (auto simp: generator_create_def malloc_def release_def Let_def word_greater_zero_iff
           split: if_splits)

lemma generator_create_frame_bytes:
  "generator_create (e\<lparr>frame_bytes := fb\<rparr>) h f ud sz = generator_create e h f ud sz"
  by (cases f) (auto simp: generator_create_def malloc_def Let_def)

lemma yields_entry: "yields (generator_entry_point f ud) = yields (f ud)"
  by (simp add: generator_entry_point_def)

lemma generator_create_live_at:
  assumes "generator_create e h (Some f) ud sz = (Some a, h1)"
  shows "\<exists>g. live_at h1 a g (unat (if sz = 0 then DEFAULT_STACK_SIZE else sz))
           \<and> pending g = yields (f ud) \<and> frames_left g = stack_needed f ud
           \<and> yielded_value g = 0"
proof -
  from generator_create_live [OF assms] obtain g sa where
    g: "cells h1 a = Some (Gen_block g)"
       "gen_context g = \<lparr>uc_pc = generator_entry_point f ud, uc_frames = 0\<rparr>"
       "state g = GEN_SUSPENDED" "yielded_value g = 0"
       "stack g = Some sa" "sa \<noteq> a"
       "stack_size g = (if sz = 0 then DEFAULT_STACK_SIZE else sz)"
       "cells h1 sa = Some (Raw_block (unat (stack_size g)))" by blast
  then have "live_at h1 a g (unat (if sz = 0 then DEFAULT_STACK_SIZE else sz))"
    by (simp add: live_at_def settled_def stack_room_def)
  moreover from g have "pending g = yields (f ud)" "frames_left g = stack_needed f ud"
    by (simp_all add: pending_def frames_left_def stack_needed_def yields_entry)
  ultimately show ?thesis using g(4) by blast
qed

lemma repeat_next_created:
  assumes "generator_create e h (Some f) ud sz = (Some a, h1)"
  shows "(repeat_next e n h1 (Some a) = Inl Stack_overflow
            \<and> unat (if sz = 0 then DEFAULT_STACK_SIZE else sz)
                < unat (frame_bytes e) * stack_needed f ud)
         \<or> (\<exists>h2. repeat_next e n h1 (Some a) = Inr (h2, next_results 0 (yields (f ud)) n))"
proof -
  from generator_create_live_at [OF assms] obtain g where
    "live_at h1 a g (unat (if sz = 0 then DEFAULT_STACK_SIZE else sz))"
    "pending g = yields (f ud)" "frames_left g = stack_needed f ud" "yielded_value g = 0"
    by blast
  with repeat_next_cases [of h1 a g _ e n] show ?thesis by simp
qed

lemma generator_create_ok:
  assumes "malloc_gen_ok e" and "malloc_stack_ok e sz" and "getcontext_ok e" and "sz \<noteq> 0"
  shows "\<exists>h'. generator_create e h (Some f) ud sz = (Some (next_addr h), h')
           \<and> next_addr h' = Suc (Suc (next_addr h))
           \<and> cells h' = (cells h)(Suc (next_addr h) \<mapsto> Raw_block (unat sz),
                                   next_addr h \<mapsto> Gen_block
                                     (created_generator f ud sz (Suc (next_addr h))))"
  using assms
  by (simp add: generator_create_def malloc_def word_greater_zero_iff created_generator_def)

lemma generator_destroy_live:
  assumes "cells h a = Some (Gen_block g)" and "stack g = Some sa" and "sa \<noteq> a"
    and "cells h sa = Some blk"
  shows "generator_destroy h (Some a) = Inr (release (release h sa) a)"
  using assms by (simp add: generator_destroy_def free_def release_def)

lemma generator_next_finished:
  "cells h a = Some (Gen_block g) \<Longrightarrow> state g = GEN_FINISHED \<Longrightarrow>
     generator_next e sw h (Some a) d = Inr (h, map_option (\<lambda>_. True) d, yielded_value g)"
  by (simp add: generator_next_def)

lemma repeat_next_finished:
  "cells h a = Some (Gen_block g) \<Longrightarrow> state g = GEN_FINISHED \<Longrightarrow>
     repeat_next e n h (Some a) = Inr (h, replicate n (yielded_value g, True))"
  by (induction n) (simp_all add: generator_next_def)

lemma one_byte_stack_overflows:
  "fst (generator_create env_ok (empty_heap :: unit heap) (Some two_yields) () 1) = Some 1
   \<and> repeat_next env_ok (Suc 0)
         (snd (generator_create env_ok (empty_heap :: unit heap) (Some two_yields) () 1)) (Some 1)
       = Inl Stack_overflow"
  by (simp add: generator_create_def env_ok_def empty_heap_def malloc_def generator_next_def
                stack_room_def generator_entry_point_def)

lemma frame_bytes_le: "unat (frame_bytes e) \<le> 255"
proof -
  have "unat (frame_bytes e) < 2 ^ 8"
    using unsigned_less [of "frame_bytes e"] by simp
  then show ?thesis by simp
qed

section \<open>Properties of the threaded backend\<close>

lemma pt_yield_store_any_state:
  "pt_state (pt_yield_store g v) = GEN_SUSPENDED \<and> pt_yielded_value (pt_yield_store g v) = v
   \<and> pt_value_ready (pt_yield_store g v)"
  by (simp add: pt_yield_store_def)

lemma calls_ok_cases:
  "calls_ok cs \<Longrightarrow>
     cs = [] \<or> cs = [Call_destroy GEN]
     \<or> (\<exists>cs'. cs = Call_next GEN (Some False) # cs' \<and> calls_ok cs')"
  by (induction cs rule: calls_ok.induct) auto

lemmas invariant_defs =
  good_def shape_def step_def all_results_def future_def lift_results_def Let_def

lemma good_wake_worker:
  "good s \<Longrightarrow> good (step Wake_worker s) \<and> all_results (step Wake_worker s) = all_results s"
  by (auto simp: invariant_defs split: caller_pc.splits worker_pc.splits)

lemma good_wake_caller:
  "good s \<Longrightarrow> good (step Wake_caller s) \<and> all_results (step Wake_caller s) = all_results s"
  by (auto simp: invariant_defs split: caller_pc.splits worker_pc.splits)

lemma good_run_worker:
  "good s \<Longrightarrow> good (step Run_worker s) \<and> all_results (step Run_worker s) = all_results s"
proof (cases "worker s")
  case (W_user p)
  assume g: "good s"
  show ?thesis
  proof (cases p)
    case Return
    with W_user g show ?thesis
      by (auto simp: invariant_defs split: caller_pc.splits)
  next
    case (Yield v k)
    with W_user g show ?thesis
      by (auto simp: invariant_defs signal_cond_next_def pt_yield_store_def
               split: caller_pc.splits)
  next
    case (IfState st a b)
    with W_user g show ?thesis
      by (auto simp: invariant_defs split: caller_pc.splits)
  next
    case (Enter k)
    with W_user g show ?thesis
      by (auto simp: invariant_defs split: caller_pc.splits)
  next
    case (Leave k)
    with W_user g show ?thesis
      by (auto simp: invariant_defs split: caller_pc.splits)
  qed
qed (auto simp: invariant_defs signal_cond_next_def split: caller_pc.splits)

lemma good_run_caller:
  "good s \<Longrightarrow> good (step Run_caller s) \<and> all_results (step Run_caller s) = all_results s"
proof (cases "caller s")
  case C_idle
  assume g: "good s"
  then have "calls_ok (calls s)" by (simp add: good_def)
  then consider "calls s = []" | "calls s = [Call_destroy GEN]"
    | cs where "calls s = Call_next GEN (Some False) # cs" "calls_ok cs"
    using calls_ok_cases by blast
  then show ?thesis
  proof cases
    case 1
    with C_idle g show ?thesis by (simp add: step_def good_def)
  next
    case 2
    with C_idle g show ?thesis
      by (auto simp: invariant_defs split: worker_pc.splits)
  next
    case 3
    with C_idle g show ?thesis
      by (auto simp: invariant_defs signal_cond_yield_def split: worker_pc.splits)
  qed
qed (auto simp: invariant_defs signal_cond_yield_def signal_cond_next_def
          split: worker_pc.splits)

lemma good_step: "good s \<Longrightarrow> good (step e s) \<and> all_results (step e s) = all_results s"
  using good_run_caller good_run_worker good_wake_caller good_wake_worker
  by (cases e) blast+

lemma good_exec: "good s \<Longrightarrow> good (exec es s) \<and> all_results (exec es s) = all_results s"
proof (induction es arbitrary: s)
  case Nil
  then show ?case by simp
next
  case (Cons e es)
  from good_step [OF Cons.prems, of e] Cons.IH [of "step e s"] show ?case by simp
qed

lemma exec_append: "exec (es @ es') s = exec es' (exec es s)"
  by (induction es arbitrary: s) auto

lemma good_finished_results: "good s \<Longrightarrow> finished s \<Longrightarrow> all_results s = results s"
  by (auto simp: invariant_defs finished_def split: worker_pc.splits)

subsection \<open>No schedule gets stuck\<close>

lemma pick_progress:
  "good s \<Longrightarrow> \<not> finished s \<Longrightarrow> steps_left (step (pick s) s) < steps_left s"
proof (cases "caller s")
  case C_idle
  assume g: "good s" and nf: "\<not> finished s"
  then have "calls_ok (calls s)" by (simp add: good_def)
  then consider "calls s = []" | "calls s = [Call_destroy GEN]"
    | cs where "calls s = Call_next GEN (Some False) # cs" "calls_ok cs"
    using calls_ok_cases by blast
  then show ?thesis
  proof cases
    case 1
    with C_idle nf show ?thesis by (simp add: finished_def)
  next
    case 2
    with C_idle g show ?thesis
      by (auto simp: good_def shape_def step_def pick_def steps_left_def Let_def
               split: worker_pc.splits)
  next
    case 3
    with C_idle g show ?thesis
      by (auto simp: good_def shape_def step_def pick_def steps_left_def Let_def
                     signal_cond_yield_def
               split: worker_pc.splits)
  qed
next
  case (C_next_wait d)
  assume g: "good s"
  show ?thesis
  proof (cases "worker s")
    case (W_user p)
    with C_next_wait g show ?thesis
      by (cases p)
         (auto simp: good_def shape_def step_def pick_def steps_left_def Let_def
                     signal_cond_next_def pt_yield_store_def)
  qed (use C_next_wait g in
        \<open>auto simp: good_def shape_def step_def pick_def steps_left_def Let_def
                    signal_cond_next_def\<close>)
next
  case C_join
  assume g: "good s"
  with C_join show ?thesis
    by (cases "worker s")
       (auto simp: good_def shape_def step_def pick_def steps_left_def Let_def)
qed (auto simp: good_def shape_def step_def pick_def steps_left_def Let_def
                signal_cond_yield_def signal_cond_next_def
          split: worker_pc.splits)

lemma fair_schedule_finishes:
  "good s \<Longrightarrow> steps_left s \<le> n \<Longrightarrow> finished (exec (fair_schedule n s) s)"
proof (induction n arbitrary: s)
  case 0
  then show ?case
    by (auto simp: steps_left_def finished_def good_def shape_def Let_def
             split: caller_pc.splits worker_pc.splits)
next
  case (Suc n)
  show ?case
  proof (cases "finished s")
    case True
    then show ?thesis by simp
  next
    case False
    from pick_progress [OF Suc.prems(1) False] Suc.prems(2)
    have "steps_left (step (pick s) s) \<le> n" by simp
    moreover have "good (step (pick s) s)" using good_step Suc.prems(1) by blast
    ultimately show ?thesis using Suc.IH False by simp
  qed
qed

lemma can_finish: "good s \<Longrightarrow> \<exists>more. finished (exec (es @ more) s)"
proof -
  assume "good s"
  then have "good (exec es s)" using good_exec by blast
  then have "finished (exec (fair_schedule (steps_left (exec es s)) (exec es s)) (exec es s))"
    by (rule fair_schedule_finishes) simp
  then show ?thesis unfolding exec_append [symmetric] by blast
qed

subsection \<open>Destruction\<close>






subsection \<open>Created systems\<close>

lemma calls_ok_next_calls: "calls_ok (next_calls n)"
  by (induction n) (auto simp: next_calls_def)


lemma nexts_in_next_calls: "nexts_in (next_calls n) = n"
  by (induction n) (auto simp: next_calls_def)


lemma created_good:
  assumes "pt_generator_create pe cs (Some f) ud = Some s0"
    and "calls_ok cs" and "cs \<noteq> [Call_destroy GEN]"
  shows "good s0 \<and> all_results s0 = lift_results (next_results 0 (yields (f ud)) (nexts_in cs))"
  using assms
  by (auto simp: pt_generator_create_def invariant_defs split: if_splits)

lemma created_run:
  assumes "pt_generator_create pe cs (Some f) ud = Some s0"
    and "calls_ok cs" and "cs \<noteq> [Call_destroy GEN]"
  shows "\<not> fault (exec es s0)"
    and "results (exec es s0) @ lift_results (future (exec es s0))
           = lift_results (next_results 0 (yields (f ud)) (nexts_in cs))"
    and "finished (exec es s0) \<Longrightarrow>
           results (exec es s0) = lift_results (next_results 0 (yields (f ud)) (nexts_in cs))"
    and "\<exists>more. finished (exec (es @ more) s0)"
proof -
  from created_good [OF assms] have g0: "good s0"
    and r0: "all_results s0 = lift_results (next_results 0 (yields (f ud)) (nexts_in cs))"
    by simp_all
  from good_exec [OF g0, of es] have g: "good (exec es s0)"
    and r: "all_results (exec es s0) = all_results s0" by simp_all
  from g show "\<not> fault (exec es s0)" by (simp add: good_def)
  from r r0 show "results (exec es s0) @ lift_results (future (exec es s0))
           = lift_results (next_results 0 (yields (f ud)) (nexts_in cs))"
    by (simp add: all_results_def)
  from good_finished_results [OF g] r r0
  show "finished (exec es s0) \<Longrightarrow>
           results (exec es s0) = lift_results (next_results 0 (yields (f ud)) (nexts_in cs))"
    by simp
  from can_finish [OF g0] show "\<exists>more. finished (exec (es @ more) s0)" .
qed


subsection \<open>Once finished\<close>

lemma waits_not_user: "waits_cond_yield w \<Longrightarrow> \<not> in_user_code w"
  by (cases w) auto

lemma finished_stays_step:
  "good s \<Longrightarrow> pt_state (pt_gen s) = GEN_FINISHED \<Longrightarrow>
     pt_state (pt_gen (step e s)) = GEN_FINISHED
     \<and> pt_yielded_value (pt_gen (step e s)) = pt_yielded_value (pt_gen s)
     \<and> \<not> in_user_code (worker (step e s))"
proof (cases e)
  case Run_caller
  assume g: "good s" and f: "pt_state (pt_gen s) = GEN_FINISHED"
  show ?thesis
  proof (cases "caller s")
    case C_idle
    from g have "calls_ok (calls s)" by (simp add: good_def)
    then consider "calls s = []" | "calls s = [Call_destroy GEN]"
      | cs where "calls s = Call_next GEN (Some False) # cs" "calls_ok cs"
      using calls_ok_cases by blast
    then show ?thesis
      using C_idle Run_caller g f
      by cases (auto simp: step_def good_def shape_def Let_def split: worker_pc.splits)
  qed (use Run_caller g f in
        \<open>auto simp: step_def good_def shape_def Let_def signal_cond_yield_def
                    signal_cond_next_def waits_not_user split: worker_pc.splits\<close>)
next
  case Run_worker
  assume g: "good s" and f: "pt_state (pt_gen s) = GEN_FINISHED"
  then show ?thesis using Run_worker
    by (cases "worker s")
       (auto simp: step_def good_def shape_def Let_def split: caller_pc.splits)
qed (auto simp: step_def good_def shape_def Let_def waits_not_user
          split: caller_pc.splits worker_pc.splits)

lemma good_finished_not_user:
  "good s \<Longrightarrow> pt_state (pt_gen s) = GEN_FINISHED \<Longrightarrow> \<not> in_user_code (worker s)"
  by (auto simp: good_def shape_def Let_def waits_not_user
           split: caller_pc.splits worker_pc.splits)

lemma finished_stays_exec:
  "good s \<Longrightarrow> pt_state (pt_gen s) = GEN_FINISHED \<Longrightarrow>
     pt_state (pt_gen (exec es s)) = GEN_FINISHED
     \<and> pt_yielded_value (pt_gen (exec es s)) = pt_yielded_value (pt_gen s)
     \<and> \<not> in_user_code (worker (exec es s))"
proof (induction es arbitrary: s)
  case Nil
  then show ?case using good_finished_not_user by simp
next
  case (Cons e es)
  from finished_stays_step [OF Cons.prems, of e] good_step [OF Cons.prems(1), of e]
  show ?case using Cons.IH [of "step e s"] by simp
qed

lemma finished_stays_created:
  assumes "pt_generator_create pe cs (Some f) ud = Some s0"
    and "calls_ok cs" and "cs \<noteq> [Call_destroy GEN]"
    and "pt_state (pt_gen (exec es s0)) = GEN_FINISHED"
  shows "pt_state (pt_gen (exec (es @ later) s0)) = GEN_FINISHED
         \<and> pt_yielded_value (pt_gen (exec (es @ later) s0))
             = pt_yielded_value (pt_gen (exec es s0))
         \<and> \<not> in_user_code (worker (exec (es @ later) s0))"
proof -
  from created_good [OF assms(1-3)] have "good s0" by simp
  from good_exec [OF this, of es] have "good (exec es s0)" by simp
  from finished_stays_exec [OF this assms(4), of later] show ?thesis
    unfolding exec_append by simp
qed

lemma destroy_after_return_not_joined:
  "finished (exec (run_to_finish @ [Run_caller, Run_caller, Run_caller]) return_destroy_system)
   \<and> results (exec (run_to_finish @ [Run_caller, Run_caller, Run_caller]) return_destroy_system)
       = [(0, Some True)]
   \<and> freed (exec (run_to_finish @ [Run_caller, Run_caller, Run_caller]) return_destroy_system)
   \<and> worker (exec (run_to_finish @ [Run_caller, Run_caller, Run_caller]) return_destroy_system)
       = W_exited
   \<and> \<not> joined (exec (run_to_finish @ [Run_caller, Run_caller, Run_caller]) return_destroy_system)"
  by code_simp

lemma next_calls_not_destroy: "next_calls n \<noteq> [Call_destroy GEN]"
  by (cases n) (simp_all add: next_calls_def)


section \<open>Properties of the demonstration programs\<close>

subsection \<open>What the generators yield\<close>

lemma yields_inorder_recursive_helper:
  "yields (inorder_recursive_helper t k) = map scast (inorder_direct t) @ yields k"
  by (induction t arbitrary: k) simp_all

lemma yields_pt_inorder_recursive_helper:
  "yields (pt_inorder_recursive_helper t k) = map scast (inorder_direct t) @ yields k"
  by (induction t arbitrary: k) simp_all

lemma yields_bst: "yields (bst_inorder_recursive_generator t) = map scast (inorder_direct t)"
  by (simp add: bst_inorder_recursive_generator_def yields_inorder_recursive_helper)

lemma yields_pt_bst: "yields (pt_bst_inorder_recursive_generator t) = map scast (inorder_direct t)"
  by (simp add: pt_bst_inorder_recursive_generator_def yields_pt_inorder_recursive_helper)

lemma yields_fib: "yields (fib_generator_func ()) = [1, 1, 2, 3, 5, 8, 13, 21, 34, 55]"
  by code_simp

lemma next_results_fib:
  "next_results 0 [1, 1, 2, 3, 5, 8, 13, 21, 34, 55] 11 =
     [(1, False), (1, False), (2, False), (3, False), (5, False), (8, False), (13, False),
      (21, False), (34, False), (55, False), (55, True)]"
  by code_simp

subsection \<open>The stack the in-order generator needs\<close>

lemma frames_needed_helper:
  "frames_needed (inorder_recursive_helper t k) n
     = max (n + Suc (tree_height t)) (frames_needed k n)"
proof (induction t arbitrary: k n)
  case No_node
  then show ?case by (simp add: max.commute)
next
  case (Node d l r)
  have "n \<le> frames_needed k n" by (rule frames_needed_ge)
  then show ?case by (simp add: Node) 
qed

lemma stack_needed_bst:
  "stack_needed bst_inorder_recursive_generator t = tree_height t + 3"
  by (simp add: stack_needed_def generator_entry_point_def bst_inorder_recursive_generator_def
                frames_needed_helper)

lemma tree_height_le: "tree_height t \<le> length (inorder_direct t)"
  by (induction t) auto

lemma small_tree_fits:
  assumes "length (inorder_direct t) \<le> 101"
  shows "unat (frame_bytes e) * stack_needed bst_inorder_recursive_generator t \<le> 32768"
proof -
  from assms tree_height_le [of t] have "stack_needed bst_inorder_recursive_generator t \<le> 104"
    by (simp add: stack_needed_bst)
  with frame_bytes_le [of e]
  have "unat (frame_bytes e) * stack_needed bst_inorder_recursive_generator t \<le> 255 * 104"
    by (rule mult_le_mono)
  then show ?thesis by simp
qed

lemma resume_left_chain:
  "room < fb * (n + Suc c) \<Longrightarrow>
     resume fb room (inorder_recursive_helper (left_chain c) k) n g = Inl Stack_overflow"
proof (induction c arbitrary: n k)
  case 0
  then show ?case by simp
next
  case (Suc c)
  from Suc.prems have "room < fb * (Suc n + Suc c)" by simp
  from Suc.IH [OF this] show ?case by simp
qed

lemma length_left_chain: "length (inorder_direct (left_chain n)) = n"
  by (induction n) auto

lemma deep_chain_overflows:
  assumes c: "generator_create e h (Some bst_inorder_recursive_generator) (left_chain c) sz
                = (Some a, h1)"
    and o: "unat (if sz = 0 then DEFAULT_STACK_SIZE else sz) < unat (frame_bytes e) * (c + 3)"
  shows "repeat_next e (Suc n) h1 (Some a) = Inl Stack_overflow"
proof -
  let ?fb = "unat (frame_bytes e)"
  let ?room = "unat (if sz = 0 then DEFAULT_STACK_SIZE else sz)"
  from generator_create_live [OF c] obtain g sa where
    g: "cells h1 a = Some (Gen_block g)"
       "gen_context g = \<lparr>uc_pc = generator_entry_point bst_inorder_recursive_generator
                                   (left_chain c), uc_frames = 0\<rparr>"
       "state g = GEN_SUSPENDED" "stack g = Some sa"
       "stack_size g = (if sz = 0 then DEFAULT_STACK_SIZE else sz)"
       "cells h1 sa = Some (Raw_block (unat (stack_size g)))" by blast
  then have r: "stack_room h1 g = Inr ?room" by (simp add: stack_room_def)
  have "c + 3 = 2 + Suc c" by simp
  with o have "?room < ?fb * (2 + Suc c)" by (simp only:)
  then have "resume ?fb ?room (inorder_recursive_helper (left_chain c) Return) 2
               (g\<lparr>state := GEN_RUNNING\<rparr>) = Inl Stack_overflow"
    by (rule resume_left_chain)
  then have "resume ?fb ?room (generator_entry_point bst_inorder_recursive_generator (left_chain c)) 0
               (g\<lparr>state := GEN_RUNNING\<rparr>) = Inl Stack_overflow"
    by (simp add: generator_entry_point_def bst_inorder_recursive_generator_def numeral_2_eq_2)
  with g r have "generator_next e True h1 (Some a) (Some False) = Inl Stack_overflow"
    by (simp add: generator_next_def)
  then show ?thesis by simp
qed

lemma small_stack_overflows:
  "fst (generator_create env_ok (empty_heap :: tree heap) (Some bst_inorder_recursive_generator)
          (left_chain 5) 256) = Some 1
   \<and> repeat_next env_ok (Suc 5)
         (snd (generator_create env_ok (empty_heap :: tree heap)
                 (Some bst_inorder_recursive_generator) (left_chain 5) 256)) (Some 1)
       = Inl Stack_overflow"
proof -
  have f: "fst (generator_create env_ok (empty_heap :: tree heap)
                  (Some bst_inorder_recursive_generator) (left_chain 5) 256) = Some 1"
    by (simp add: generator_create_def env_ok_def empty_heap_def malloc_def)
  then have c: "generator_create env_ok (empty_heap :: tree heap)
                  (Some bst_inorder_recursive_generator) (left_chain 5) 256
                = (Some 1, snd (generator_create env_ok (empty_heap :: tree heap)
                     (Some bst_inorder_recursive_generator) (left_chain 5) 256))"
    by (simp add: prod_eq_iff)
  have o: "unat (if (256 :: size_t) = 0 then DEFAULT_STACK_SIZE else 256)
             < unat (frame_bytes env_ok) * (5 + 3)"
    by (simp add: env_ok_def)
  from f deep_chain_overflows [OF c o, of 5] show ?thesis by (intro conjI)
qed

subsection \<open>The validity check of bst.c\<close>

lemma check_loop_lockstep:
  assumes "a \<noteq> b"
    and "live_at h a ga ra" and "unat (frame_bytes e) * frames_left ga \<le> ra"
    and "stack ga \<noteq> Some b"
    and "live_at h b gb rb" and "unat (frame_bytes e) * frames_left gb \<le> rb"
    and "stack gb \<noteq> Some a"
    and "pending ga = as"
  shows "\<exists>h' ga' gb'. check_loop e h (Some a) (Some b) n log
                        = Inr (h', lockstep as (pending gb) n log)
           \<and> cells h' = (cells h)(a \<mapsto> Gen_block ga', b \<mapsto> Gen_block gb')
           \<and> stack ga' = stack ga \<and> stack gb' = stack gb"
  using assms
proof (induction as arbitrary: h ga gb n log)
  case Nil
  from generator_next_live [OF Nil(5,6), of False] obtain h1 gb1 where
    b: "generator_next e True h (Some b) (Some False)
          = Inr (h1, Some (pending gb = []),
                 (if pending gb = [] then yielded_value gb else hd (pending gb)))"
    and h1: "cells h1 = (cells h)(b \<mapsto> Gen_block gb1)" and sb: "stack gb1 = stack gb"
    by blast
  from live_at_other [OF Nil(2) h1 _ Nil(4)] Nil(1) have "live_at h1 a ga ra" by simp
  from generator_next_live [OF this Nil(3), of False] obtain h2 ga1 where
    a: "generator_next e True h1 (Some a) (Some False)
          = Inr (h2, Some (pending ga = []),
                 (if pending ga = [] then yielded_value ga else hd (pending ga)))"
    and h2: "cells h2 = (cells h1)(a \<mapsto> Gen_block ga1)" and sa: "stack ga1 = stack ga"
    by blast
  have e: "check_loop e h (Some a) (Some b) n log
             = Inr (h2, lockstep [] (pending gb) n log)"
    by (subst check_loop.simps) (simp add: a b Nil(8))
  have c2: "cells h2 = (cells h)(a \<mapsto> Gen_block ga1, b \<mapsto> Gen_block gb1)"
    unfolding h2 h1 using Nil(1) by (rule fun_upd_twist [symmetric])
  show ?case
    by (intro exI conjI, rule e, rule c2, rule sa, rule sb)
next
  case (Cons x as)
  from generator_next_live [OF Cons(6,7), of False] obtain h1 gb1 where
    b: "generator_next e True h (Some b) (Some False)
          = Inr (h1, Some (pending gb = []),
                 (if pending gb = [] then yielded_value gb else hd (pending gb)))"
    and h1: "cells h1 = (cells h)(b \<mapsto> Gen_block gb1)" and sb: "stack gb1 = stack gb"
    and lb: "live_at h1 b gb1 rb" and yb: "pending gb1 = tl (pending gb)"
    and fb: "unat (frame_bytes e) * frames_left gb1 \<le> rb"
    by blast
  from live_at_other [OF Cons(3) h1 _ Cons(5)] Cons(2) have "live_at h1 a ga ra" by simp
  from generator_next_live [OF this Cons(4), of False] obtain h2 ga1 where
    a: "generator_next e True h1 (Some a) (Some False)
          = Inr (h2, Some (pending ga = []),
                 (if pending ga = [] then yielded_value ga else hd (pending ga)))"
    and h2: "cells h2 = (cells h1)(a \<mapsto> Gen_block ga1)" and sa: "stack ga1 = stack ga"
    and la: "live_at h2 a ga1 ra" and ya: "pending ga1 = tl (pending ga)"
    and fa: "unat (frame_bytes e) * frames_left ga1 \<le> ra"
    by blast
  have c2: "cells h2 = (cells h)(a \<mapsto> Gen_block ga1, b \<mapsto> Gen_block gb1)"
    unfolding h2 h1 using Cons(2) by (rule fun_upd_twist [symmetric])
  show ?case
  proof (cases "pending gb")
    case Nil
    have e: "check_loop e h (Some a) (Some b) n log
             = Inr (h2, lockstep (x # as) (pending gb) n log)"
      by (subst check_loop.simps) (simp add: a b Nil)
    show ?thesis
      by (intro exI conjI, rule e, rule c2, rule sa, rule sb)
  next
    case (Cons y bs)
    note yb' = Cons
    show ?thesis
    proof (cases "x \<le>s y \<or> n + 1 > 100")
      case True
      have e: "check_loop e h (Some a) (Some b) n log
             = Inr (h2, lockstep (x # as) (pending gb) n log)"
        using True by (subst check_loop.simps) (auto simp: a b yb' Cons.prems(8))
      show ?thesis
        by (intro exI conjI, rule e, rule c2, rule sa, rule sb)
    next
      case False
      have l: "check_loop e h (Some a) (Some b) n log
                 = check_loop e h2 (Some a) (Some b) (n + 1) (log @ [(n, x, y)])"
        using False by (subst check_loop.simps) (auto simp: a b yb' Cons.prems(8))
      from sb Cons.prems(7) have "stack gb1 \<noteq> Some a" by simp
      from live_at_other [OF lb h2 _ this] Cons.prems(1) have lb2: "live_at h2 b gb1 rb" by simp
      from sa Cons.prems(4) have sa2: "stack ga1 \<noteq> Some b" by simp
      from sb Cons.prems(7) have sb2: "stack gb1 \<noteq> Some a" by simp
      from ya Cons.prems(8) have ya': "pending ga1 = as" by simp
      from Cons.IH [OF Cons.prems(1) la fa sa2 lb2 fb sb2 ya', of "n + 1" "log @ [(n, x, y)]"]
      obtain h' ga' gb' where
        r: "check_loop e h2 (Some a) (Some b) (n + 1) (log @ [(n, x, y)])
              = Inr (h', lockstep as (pending gb1) (n + 1) (log @ [(n, x, y)]))"
        and c': "cells h' = (cells h2)(a \<mapsto> Gen_block ga', b \<mapsto> Gen_block gb')"
        and s': "stack ga' = stack ga1" "stack gb' = stack gb1" by blast
      have c'': "cells h' = (cells h)(a \<mapsto> Gen_block ga', b \<mapsto> Gen_block gb')"
        unfolding c' c2 using Cons.prems(1) by (auto simp: fun_eq_iff)
      have e: "check_loop e h (Some a) (Some b) n log
             = Inr (h', lockstep (x # as) (pending gb) n log)"
        using False l r yb yb' by simp
      from s' sa sb have s'': "stack ga' = stack ga" "stack gb' = stack gb" by simp_all
      show ?thesis
        by (intro exI conjI, rule e, rule c'', rule s''(1), rule s''(2))
    qed
  qed
qed

lemma check_bst_property_lockstep:
  assumes e0: "malloc_gen_ok e" "malloc_stack_ok e (32 * 1024)" "getcontext_ok e"
    and fit: "unat (frame_bytes e) * stack_needed bst_inorder_recursive_generator root \<le> 32768"
  shows "map_sum id snd (check_bst_property e h root)
           = Inr (lockstep_check (map scast (inorder_direct root)))"
proof (cases root)
  case No_node
  then show ?thesis by (simp add: check_bst_property_def lockstep_check_def)
next
  case (Node d l r)
  define a where "a = next_addr h"
  define ks :: "int64_t list" where "ks = map scast (inorder_direct root)"
  from Node have ks: "ks \<noteq> []" by (simp add: ks_def)
  from Node have rt: "root \<noteq> No_node" by simp
  from e0 have e: "malloc_gen_ok e" "malloc_stack_ok e 32768" "getcontext_ok e" by simp_all
  have nz: "(32768 :: size_t) \<noteq> 0" by simp
  define ga where "ga = created_generator bst_inorder_recursive_generator root 32768 (Suc a)"
  define gb where
    "gb = created_generator bst_inorder_recursive_generator root 32768 (Suc (Suc (Suc a)))"
  from generator_create_ok [OF e nz, of h bst_inorder_recursive_generator root]
  obtain h1 where
    c1: "generator_create e h (Some bst_inorder_recursive_generator) root 32768
           = (Some a, h1)"
    and n1: "next_addr h1 = Suc (Suc a)"
    and m1: "cells h1 = (cells h)(Suc a \<mapsto> Raw_block (unat (32768 :: size_t)),
                                  a \<mapsto> Gen_block ga)"
    unfolding a_def ga_def by blast
  from generator_create_ok [OF e nz, of h1 bst_inorder_recursive_generator root]
  obtain h2 where
    c2: "generator_create e h1 (Some bst_inorder_recursive_generator) root 32768
           = (Some (Suc (Suc a)), h2)"
    and m2: "cells h2 = (cells h1)(Suc (Suc (Suc a)) \<mapsto> Raw_block (unat (32768 :: size_t)),
                                   Suc (Suc a) \<mapsto> Gen_block gb)"
    unfolding n1 gb_def by blast
  have ga: "state ga = GEN_SUSPENDED" "stack ga = Some (Suc a)" "stack_size ga = 32768"
    and gb: "state gb = GEN_SUSPENDED" "stack gb = Some (Suc (Suc (Suc a)))"
            "stack_size gb = 32768"
    by (simp_all add: ga_def gb_def created_generator_def)
  let ?b = "Suc (Suc a)"
  have ab: "a \<noteq> ?b" by simp
  have ya: "pending ga = ks" and yb: "pending gb = ks"
    and fa: "frames_left ga = stack_needed bst_inorder_recursive_generator root"
    and fb: "frames_left gb = stack_needed bst_inorder_recursive_generator root"
    by (simp_all add: ga_def gb_def created_generator_def pending_def frames_left_def
                      stack_needed_def ks_def yields_bst yields_entry)
  have la: "live_at h2 a ga 32768" and lb: "live_at h2 ?b gb 32768"
    by (simp_all add: live_at_def settled_def stack_room_def m2 m1 ga gb)
  from fit have fita: "unat (frame_bytes e) * frames_left ga \<le> 32768"
    and fitb: "unat (frame_bytes e) * frames_left gb \<le> 32768" by (simp_all add: fa fb)
  from generator_next_live [OF la fita, of False] obtain h3 ga1 where
    n3': "generator_next e True h2 (Some a) (Some False)
            = Inr (h3, Some (pending ga = []),
                   (if pending ga = [] then yielded_value ga else hd (pending ga)))"
    and m3: "cells h3 = (cells h2)(a \<mapsto> Gen_block ga1)" and l3: "live_at h3 a ga1 32768"
    and y3': "pending ga1 = tl (pending ga)"
    and k3': "stack ga1 = stack ga"
    and f3: "unat (frame_bytes e) * frames_left ga1 \<le> 32768"
    by blast
  from n3' ks have n3: "generator_next e True h2 (Some a) (Some False) = Inr (h3, Some False, hd ks)"
    by (simp add: ya)
  from y3' have y3: "pending ga1 = tl ks" by (simp add: ya)
  from k3' have k3: "stack ga1 = Some (Suc a)" by (simp add: ga)
  have sab: "stack ga1 \<noteq> Some ?b" and sba: "stack gb \<noteq> Some a" by (simp_all add: k3 gb)
  from live_at_other [OF lb m3 _ sba] have lb3: "live_at h3 ?b gb 32768" by simp
  from check_loop_lockstep [OF ab l3 f3 sab lb3 fitb sba y3, of 0 "[]"] obtain h4 ga' gb' where
    l4': "check_loop e h3 (Some a) (Some ?b) 0 []
            = Inr (h4, lockstep (tl ks) (pending gb) 0 [])"
    and m4: "cells h4 = (cells h3)(a \<mapsto> Gen_block ga', ?b \<mapsto> Gen_block gb')"
    and k4': "stack ga' = stack ga1" "stack gb' = stack gb"
    by blast
  from l4' have l4: "check_loop e h3 (Some a) (Some ?b) 0 [] = Inr (h4, lockstep (tl ks) ks 0 [])"
    by (simp add: yb)
  from k4' have k4: "stack ga' = Some (Suc a)" "stack gb' = Some (Suc (Suc (Suc a)))"
    by (simp_all add: k3 gb)
  have d1: "generator_destroy h4 (Some a) = Inr (release (release h4 (Suc a)) a)"
    by (rule generator_destroy_live [where g = ga' and blk = "Raw_block (unat (32768 :: size_t))"])
       (simp_all add: m4 m3 m2 m1 k4)
  have d2: "generator_destroy (release (release h4 (Suc a)) a) (Some ?b)
              = Inr (release (release (release (release h4 (Suc a)) a) (Suc (Suc (Suc a)))) ?b)"
    by (rule generator_destroy_live [where g = gb' and blk = "Raw_block (unat (32768 :: size_t))"])
       (simp_all add: m4 m3 m2 m1 k4 release_def)
  have "map_sum id snd (check_bst_property e h root) = Inr (lockstep (tl ks) ks 0 [])"
    using rt
    by (simp add: check_bst_property_def c1 c2 n3 l4 d1 d2 destroy_both_def
             del: check_loop.simps)
  also have "lockstep (tl ks) ks 0 [] = lockstep_check ks"
    using ks by (cases ks) (simp_all add: lockstep_check_def)
  finally show ?thesis unfolding ks_def .
qed

lemma not_sle: "\<not> a \<le>s b \<longleftrightarrow> b <s a" for a b :: int64_t
  by (simp add: word_sle_eq word_sless_alt not_le)

lemma lockstep_successively:
  "n + length as \<le> 100 \<Longrightarrow> fst (lockstep as (b # as) n log) \<longleftrightarrow> successively (<s) (b # as)"
proof (induction as arbitrary: b n log)
  case Nil
  then show ?case by simp
next
  case (Cons a as)
  from Cons.prems have "Suc n + length as \<le> 100" by simp
  from Cons.IH [OF this, of a "log @ [(n, a, b)]"] Cons.prems show ?case
    by (auto simp: not_sle dest: signed.leD)
qed

lemma lockstep_check_sorted:
  "length ks \<le> 101 \<Longrightarrow> fst (lockstep_check ks) \<longleftrightarrow> sorted_wrt (<s) ks"
proof (cases ks)
  case Nil
  then show ?thesis by (simp add: lockstep_check_def)
next
  case (Cons k ks')
  assume "length ks \<le> 101"
  with Cons have "0 + length ks' \<le> 100" by simp
  from lockstep_successively [OF this, of k "[]"] Cons show ?thesis
    by (simp add: lockstep_check_def successively_conv_sorted_wrt [OF signed.transp_on_less])
qed

lemma scast_less: "(scast (a :: int32_t) :: int64_t) <s scast b \<longleftrightarrow> a <s b"
  by (simp add: word_sless_alt sint_up_scast is_up)

lemma sorted_scast:
  "sorted_wrt (<s) (map scast (xs :: int32_t list) :: int64_t list) \<longleftrightarrow> sorted_wrt (<s) xs"
  by (simp add: sorted_wrt_map scast_less)

lemma is_bst_iff_sorted: "is_bst t \<longleftrightarrow> sorted_wrt (<s) (inorder_direct t)"
proof (induction t)
  case No_node
  then show ?case by simp
next
  case (Node d l r)
  have tr: "x <s d \<Longrightarrow> d <s y \<Longrightarrow> x <s y" for x y :: int32_t
    by (rule signed.less_trans)
  from Node show ?case
    by (auto simp: sorted_wrt_append intro: tr)
qed

lemma result_of_check: "map_sum id snd x = Inr p \<Longrightarrow> map_sum id (fst \<circ> snd) x = Inr (fst p)"
  by (cases x) auto

lemma check_bst_property_decides:
  assumes "malloc_gen_ok e" and "malloc_stack_ok e (32 * 1024)" and "getcontext_ok e"
    and "length (inorder_direct t) \<le> 101"
  shows "map_sum id (fst \<circ> snd) (check_bst_property e h t) = Inr (is_bst t)"
proof -
  from assms(4) have "length (map scast (inorder_direct t) :: int64_t list) \<le> 101" by simp
  from lockstep_check_sorted [OF this]
  have "fst (lockstep_check (map scast (inorder_direct t))) = is_bst t"
    by (simp only: sorted_scast is_bst_iff_sorted)
  with result_of_check
    [OF check_bst_property_lockstep [OF assms(1-3) small_tree_fits [OF assms(4)], of h]]
  show ?thesis by simp
qed

section \<open>The claims\<close>

text \<open>
  C1. Every \<^verbatim>\<open>generator_next\<close> advances the generator by exactly one yield: the calls
  return the values of the \<^verbatim>\<open>yield\<close> calls of the user function in order, each once, with
  finished false, and once the user function has returned they report finished with the
  last value. Stackful: \<open>n\<close> calls on a freshly created generator either return
  \<open>next_results 0 (yields (f ud)) n\<close> or one of them runs over the end of the generator's
  stack, and this only when the stack is smaller than what the run needs (as this holds
  for every \<open>n\<close>, the calls made before that one have returned what they should); when
  the stack suffices for the run, they return that list. Threaded: for a caller making
  \<open>n\<close> calls, on every schedule (spurious wake-ups included) no freed memory is used, the
  results returned so far are an initial part of that same list, they are the whole list
  once the caller is through, and every schedule can be continued so that the caller gets
  through. The values reported with finished false are exactly the first \<open>n\<close> yielded
  values.
\<close>

theorem next_returns_each_yield_once:
  "(generator_create e h (Some f) ud sz = (Some a, h1) \<longrightarrow>
      (repeat_next e n h1 (Some a) = Inl Stack_overflow
         \<and> unat (if sz = 0 then DEFAULT_STACK_SIZE else sz)
             < unat (frame_bytes e) * stack_needed f ud
       \<or> (\<exists>h2. repeat_next e n h1 (Some a) = Inr (h2, next_results 0 (yields (f ud)) n)))
      \<and> (unat (frame_bytes e) * stack_needed f ud
             \<le> unat (if sz = 0 then DEFAULT_STACK_SIZE else sz) \<longrightarrow>
           (\<exists>h2. repeat_next e n h1 (Some a) = Inr (h2, next_results 0 (yields (f ud)) n))))
   \<and> (pt_generator_create pe (next_calls n) (Some f) ud = Some s0 \<longrightarrow>
        \<not> fault (exec es s0)
        \<and> (\<exists>rest. results (exec es s0) @ rest = lift_results (next_results 0 (yields (f ud)) n))
        \<and> (finished (exec es s0) \<longrightarrow>
             results (exec es s0) = lift_results (next_results 0 (yields (f ud)) n))
        \<and> (\<exists>later. finished (exec (es @ later) s0)))
   \<and> map fst (filter (\<lambda>r. \<not> snd r) (next_results 0 (yields (f ud)) n)) = take n (yields (f ud))"
proof (intro conjI impI)
  assume c: "generator_create e h (Some f) ud sz = (Some a, h1)"
  from repeat_next_created [OF c, of n]
  show "repeat_next e n h1 (Some a) = Inl Stack_overflow
         \<and> unat (if sz = 0 then DEFAULT_STACK_SIZE else sz)
             < unat (frame_bytes e) * stack_needed f ud
       \<or> (\<exists>h2. repeat_next e n h1 (Some a) = Inr (h2, next_results 0 (yields (f ud)) n))" .
  assume "unat (frame_bytes e) * stack_needed f ud
             \<le> unat (if sz = 0 then DEFAULT_STACK_SIZE else sz)"
  with repeat_next_created [OF c, of n]
  show "\<exists>h2. repeat_next e n h1 (Some a) = Inr (h2, next_results 0 (yields (f ud)) n)"
    by auto
next
  assume c: "pt_generator_create pe (next_calls n) (Some f) ud = Some s0"
  have k: "calls_ok (next_calls n)" by (rule calls_ok_next_calls)
  have d: "next_calls n \<noteq> [Call_destroy GEN]"
    by (cases n) (simp_all add: next_calls_def)
  note r = created_run [OF c k d, of es, unfolded nexts_in_next_calls]
  from r(1) show "\<not> fault (exec es s0)" .
  from r(2) show "\<exists>rest. results (exec es s0) @ rest = lift_results (next_results 0 (yields (f ud)) n)"
    by (rule exI)
  from r(4) show "\<exists>later. finished (exec (es @ later) s0)" .
  assume "finished (exec es s0)"
  then show "results (exec es s0) = lift_results (next_results 0 (yields (f ud)) n)"
    by (rule r(3))
next
  show "map fst (filter (\<lambda>r. \<not> snd r) (next_results 0 (yields (f ud)) n)) = take n (yields (f ud))"
    by (rule next_results_unfinished)
qed

text \<open>
  The theorem at the user function that yields 7 and 9, with three calls: both creations
  succeed, the default stack suffices, the schedule lets the caller get through, and the
  results are 7, 9 and then finished.
\<close>

theorem next_returns_each_yield_once_witness:
  "generator_create env_ok empty_heap (Some two_yields) () 0 = (Some 1, two_yields_heap)
   \<and> unat (frame_bytes env_ok) * stack_needed two_yields ()
        \<le> unat (if (0 :: size_t) = 0 then DEFAULT_STACK_SIZE else 0)
   \<and> (\<exists>h2. repeat_next env_ok 3 two_yields_heap (Some 1)
               = Inr (h2, next_results 0 (yields (two_yields ())) 3))
   \<and> pt_generator_create pt_env_ok (next_calls 3) (Some two_yields) () = Some two_yields_system
   \<and> finished (exec two_yields_schedule two_yields_system)
   \<and> results (exec two_yields_schedule two_yields_system)
        = lift_results (next_results 0 (yields (two_yields ())) 3)
   \<and> next_results 0 (yields (two_yields ())) 3 = [(7, False), (9, False), (9, True)]"
proof -
  have "fst (generator_create env_ok empty_heap (Some two_yields) () 0) = Some 1"
    by (simp add: generator_create_def env_ok_def empty_heap_def malloc_def
                  DEFAULT_STACK_SIZE_def)
  then have c: "generator_create env_ok empty_heap (Some two_yields) () 0 = (Some 1, two_yields_heap)"
    by (simp add: two_yields_heap_def prod_eq_iff)
  have s: "unat (frame_bytes env_ok) * stack_needed two_yields ()
        \<le> unat (if (0 :: size_t) = 0 then DEFAULT_STACK_SIZE else 0)"
    by (simp add: env_ok_def stack_needed_def generator_entry_point_def two_yields_def
                  DEFAULT_STACK_SIZE_def)
  have p: "pt_generator_create pt_env_ok (next_calls 3) (Some two_yields) () = Some two_yields_system"
    by (simp add: two_yields_system_def pt_generator_create_def pt_env_ok_def)
  have f: "finished (exec two_yields_schedule two_yields_system)"
    by code_simp
  have v: "next_results 0 (yields (two_yields ())) 3 = [(7, False), (9, False), (9, True)]"
    by (simp add: two_yields_def numeral_3_eq_3)
  note t = next_returns_each_yield_once
    [where e = env_ok and h = empty_heap and f = two_yields and ud = "()" and sz = 0
       and a = 1 and ?h1.0 = two_yields_heap and n = 3 and pe = pt_env_ok
       and ?s0.0 = two_yields_system and es = two_yields_schedule]
  note t1 = t [THEN conjunct1, THEN mp, OF c, THEN conjunct2, THEN mp, OF s]
  note t2 = t [THEN conjunct2, THEN conjunct1, THEN mp, OF p]
  note t3 = t2 [THEN conjunct2, THEN conjunct2, THEN conjunct1, THEN mp, OF f]
  show ?thesis
    by (rule conjI [OF c conjI [OF s conjI [OF t1 conjI [OF p conjI [OF f conjI [OF t3 v]]]]]])
qed

text \<open>
  C2. A \<^verbatim>\<open>yield\<close> made while the state is not \<^verbatim>\<open>GEN_RUNNING\<close> is to be refused and
  reported, with state and yielded value left as they are. The stackful \<^verbatim>\<open>yield\<close> does
  so (last line). The threaded \<^verbatim>\<open>yield\<close> has no such test: when the generator has
  finished (the one \<^verbatim>\<open>generator_next\<close> has returned finished) and the caller then calls
  \<^verbatim>\<open>yield(gen, 7)\<close>, the call stores 7, puts the state back from \<^verbatim>\<open>GEN_FINISHED\<close> to
  \<^verbatim>\<open>GEN_SUSPENDED\<close> and leaves the calling thread blocked in its wait; nothing is reported.
\<close>

theorem pt_yield_outside_running:
  "pt_state (pt_gen (exec run_to_finish misuse_system)) = GEN_FINISHED
   \<and> results (exec (run_to_finish @ [Run_caller]) misuse_system) = [(0, Some True)]
   \<and> pt_state (pt_gen (exec (run_to_finish @ [Run_caller, Run_caller]) misuse_system))
       = GEN_SUSPENDED
   \<and> pt_yielded_value (pt_gen (exec (run_to_finish @ [Run_caller, Run_caller]) misuse_system)) = 7
   \<and> caller (exec (run_to_finish @ [Run_caller, Run_caller]) misuse_system) = C_yield_wait
   \<and> \<not> fault (exec (run_to_finish @ [Run_caller, Run_caller]) misuse_system)
   \<and> pt_state (pt_yield_store (pt_gen (exec run_to_finish misuse_system)) 7) = GEN_SUSPENDED
   \<and> yield (Some finished_generator) 7 = Inl Yield_outside_running"
  by code_simp

text \<open>
  C3. Once the state is \<^verbatim>\<open>GEN_FINISHED\<close> it is to stay so, with the last yielded value,
  and every later \<^verbatim>\<open>generator_next\<close> is to report finished with that value. The
  threaded backend does not keep to this, as its \<^verbatim>\<open>yield\<close> does not test the state: the
  generator of the user function that yields 7 and 9 has finished, its three
  \<^verbatim>\<open>generator_next\<close> calls having returned 7, 9 and (9, finished), and its worker thread is
  gone (first three lines); a call \<^verbatim>\<open>yield(gen, 1)\<close> then takes the state from
  \<^verbatim>\<open>GEN_FINISHED\<close> to \<^verbatim>\<open>GEN_SUSPENDED\<close> and the yielded value from 9 to 1, and the
  calling thread stays in the wait of that \<^verbatim>\<open>yield\<close> whatever is scheduled; a
  \<^verbatim>\<open>generator_next\<close> begun in the state so reached does not report finished: it sets the
  state to \<^verbatim>\<open>GEN_RUNNING\<close> and waits for a worker that is gone. The stackful backend
  refuses the same \<^verbatim>\<open>yield\<close> on a finished generator, and its \<^verbatim>\<open>generator_next\<close> goes on
  reporting finished with the last value (last two lines).
\<close>

theorem finished_left_by_yield:
  "results (exec two_yields_schedule yield_after_finish_system)
     = [(7, Some False), (9, Some False), (9, Some True)]
   \<and> pt_state (pt_gen (exec two_yields_schedule yield_after_finish_system)) = GEN_FINISHED
   \<and> worker (exec two_yields_schedule yield_after_finish_system) = W_exited
   \<and> pt_state (pt_gen (exec (two_yields_schedule @ [Run_caller]) yield_after_finish_system))
       = GEN_SUSPENDED
   \<and> pt_yielded_value (pt_gen (exec (two_yields_schedule @ [Run_caller]) yield_after_finish_system))
       = 1
   \<and> \<not> fault (exec (two_yields_schedule @ [Run_caller]) yield_after_finish_system)
   \<and> caller (exec (two_yields_schedule @ [Run_caller, Wake_caller, Run_caller, Run_worker,
                    Wake_worker, Run_worker, Run_caller]) yield_after_finish_system)
       = C_yield_wait
   \<and> caller (step Run_caller
          ((exec (two_yields_schedule @ [Run_caller]) yield_after_finish_system)
             \<lparr>caller := C_idle, calls := [Call_next GEN (Some False)]\<rparr>))
       = C_next_wait (Some False)
   \<and> pt_state (pt_gen (step Run_caller
          ((exec (two_yields_schedule @ [Run_caller]) yield_after_finish_system)
             \<lparr>caller := C_idle, calls := [Call_next GEN (Some False)]\<rparr>)))
       = GEN_RUNNING
   \<and> results (step Run_caller
          ((exec (two_yields_schedule @ [Run_caller]) yield_after_finish_system)
             \<lparr>caller := C_idle, calls := [Call_next GEN (Some False)]\<rparr>))
       = [(7, Some False), (9, Some False), (9, Some True)]
   \<and> yield (Some finished_generator) 1 = Inl Yield_outside_running
   \<and> map_sum id snd (generator_next env_ok True finished_heap (Some 1) (Some False))
       = Inr (Some True, 5)"
  by code_simp

text \<open>
  C4, as stated, fails on the stackful backend: the generator runs the recursion on its
  own stack, of the 32 KB bst.c gives it, and a tree that is deep enough does not fit.
  For the tree of 40000 nodes each of which is the left child of the one before, the
  direct traversal has its 40000 keys, the generator is created, and the first
  \<^verbatim>\<open>generator_next\<close> runs over the end of the stack before anything is yielded, with
  activation records of 64 bytes and even with activation records of a single byte.
\<close>

theorem deep_tree_overflows_generator_stack:
  "length (inorder_direct (left_chain 40000)) = 40000
   \<and> generator_create env_ok empty_heap (Some bst_inorder_recursive_generator)
         (left_chain 40000) (32 * 1024) = (Some 1, deep_heap)
   \<and> repeat_next env_ok (Suc 40000) deep_heap (Some 1) = Inl Stack_overflow
   \<and> generator_create (env_ok\<lparr>frame_bytes := 1\<rparr>) empty_heap
         (Some bst_inorder_recursive_generator) (left_chain 40000) (32 * 1024)
       = (Some 1, deep_heap)
   \<and> repeat_next (env_ok\<lparr>frame_bytes := 1\<rparr>) (Suc 40000) deep_heap (Some 1)
       = Inl Stack_overflow"
proof -
  have "fst (generator_create env_ok (empty_heap :: tree heap)
               (Some bst_inorder_recursive_generator) (left_chain 40000) (32 * 1024)) = Some 1"
    by (simp add: generator_create_def env_ok_def empty_heap_def malloc_def)
  then have c: "generator_create env_ok empty_heap (Some bst_inorder_recursive_generator)
                  (left_chain 40000) (32 * 1024) = (Some 1, deep_heap)"
    by (simp add: deep_heap_def prod_eq_iff)
  have c': "generator_create (env_ok\<lparr>frame_bytes := 1\<rparr>) empty_heap
              (Some bst_inorder_recursive_generator) (left_chain 40000) (32 * 1024)
            = (Some 1, deep_heap)"
    unfolding c [symmetric] by (rule generator_create_frame_bytes)
  have o: "unat (if (32 * 1024 :: size_t) = 0 then DEFAULT_STACK_SIZE else 32 * 1024)
             < unat (frame_bytes env_ok) * (40000 + 3)"
    by (simp add: env_ok_def)
  have o': "unat (if (32 * 1024 :: size_t) = 0 then DEFAULT_STACK_SIZE else 32 * 1024)
             < unat (frame_bytes (env_ok\<lparr>frame_bytes := 1\<rparr>)) * (40000 + 3)"
    by simp
  from length_left_chain [of 40000] c deep_chain_overflows [OF c o, of 40000]
       c' deep_chain_overflows [OF c' o', of 40000]
  show ?thesis by (intro conjI)
qed

text \<open>
  C4, amended. For every binary tree that the generator's stack has room for, driving the
  in-order generator to completion gives the keys of the direct recursive in-order
  traversal, in both backends: with more calls of \<^verbatim>\<open>generator_next\<close> than the tree has
  nodes, the calls return the keys of \<open>inorder_direct root\<close> (widened to \<^verbatim>\<open>int64_t\<close>) in
  order, each with finished false, and every later call reports finished. Stackful: for
  the generator created on \<^verbatim>\<open>bst_inorder_recursive_generator\<close>, when the stack holds three
  activation records more than the tree is high; on a smaller stack the calls return
  that list or run over the end of the stack. Threaded: for every tree, with the
  generator of bst_pthread.c, which runs on the stack of its thread, on every schedule on
  which the caller gets through, and every schedule can be continued to such a one.
\<close>

theorem inorder_generator_matches_direct_traversal:
  "(generator_create e h (Some bst_inorder_recursive_generator) root sz = (Some a, h1)
      \<and> length (inorder_direct root) < n \<longrightarrow>
      (unat (frame_bytes e) * (tree_height root + 3)
           \<le> unat (if sz = 0 then DEFAULT_STACK_SIZE else sz) \<longrightarrow>
         (\<exists>h2. repeat_next e n h1 (Some a) =
            Inr (h2, map (\<lambda>k. (scast k, False)) (inorder_direct root)
                     @ replicate (n - length (inorder_direct root))
                         (last (0 # map scast (inorder_direct root)), True))))
      \<and> (repeat_next e n h1 (Some a) = Inl Stack_overflow
          \<or> (\<exists>h2. repeat_next e n h1 (Some a) =
                Inr (h2, map (\<lambda>k. (scast k, False)) (inorder_direct root)
                         @ replicate (n - length (inorder_direct root))
                             (last (0 # map scast (inorder_direct root)), True)))))
   \<and> (pt_generator_create pe (next_calls n) (Some pt_bst_inorder_recursive_generator) root = Some s0
      \<and> length (inorder_direct root) < n \<longrightarrow>
      (finished (exec es s0) \<longrightarrow>
         results (exec es s0) =
           lift_results (map (\<lambda>k. (scast k, False)) (inorder_direct root)
                  @ replicate (n - length (inorder_direct root))
                      (last (0 # map scast (inorder_direct root)), True)))
      \<and> (\<exists>later. finished (exec (es @ later) s0)))
   \<and> yields (bst_inorder_recursive_generator root) = map scast (inorder_direct root)
   \<and> yields (pt_bst_inorder_recursive_generator root) = map scast (inorder_direct root)"
proof -
  let ?ks = "map scast (inorder_direct root) :: int64_t list"
  let ?rs = "map (\<lambda>k. (scast k, False)) (inorder_direct root)
              @ replicate (n - length (inorder_direct root)) (last (0 # ?ks), True)"
  have nr: "next_results 0 ?ks n = ?rs"
    if "length (inorder_direct root) < n"
    using that next_results_complete [of ?ks n 0] by (simp add: comp_def)
  have A: "(unat (frame_bytes e) * (tree_height root + 3)
           \<le> unat (if sz = 0 then DEFAULT_STACK_SIZE else sz) \<longrightarrow>
         (\<exists>h2. repeat_next e n h1 (Some a) = Inr (h2, ?rs)))
      \<and> (repeat_next e n h1 (Some a) = Inl Stack_overflow
          \<or> (\<exists>h2. repeat_next e n h1 (Some a) = Inr (h2, ?rs)))"
    if "generator_create e h (Some bst_inorder_recursive_generator) root sz = (Some a, h1)
        \<and> length (inorder_direct root) < n"
  proof -
    from that have c: "generator_create e h (Some bst_inorder_recursive_generator) root sz = (Some a, h1)"
      and l: "length (inorder_direct root) < n" by simp_all
    note r = repeat_next_created [OF c, of n, unfolded yields_bst nr [OF l] stack_needed_bst]
    from r show ?thesis by auto
  qed
  have B: "(finished (exec es s0) \<longrightarrow> results (exec es s0) = lift_results ?rs)
      \<and> (\<exists>later. finished (exec (es @ later) s0))"
    if "pt_generator_create pe (next_calls n) (Some pt_bst_inorder_recursive_generator) root = Some s0
      \<and> length (inorder_direct root) < n"
  proof -
    from that have c: "pt_generator_create pe (next_calls n) (Some pt_bst_inorder_recursive_generator) root = Some s0"
      and l: "length (inorder_direct root) < n" by simp_all
    have k: "calls_ok (next_calls n)" by (rule calls_ok_next_calls)
    have d: "next_calls n \<noteq> [Call_destroy GEN]"
      by (cases n) (simp_all add: next_calls_def)
    note r = created_run [OF c k d, of es, unfolded nexts_in_next_calls yields_pt_bst nr [OF l]]
    from r(3) r(4) show ?thesis by simp
  qed
  show ?thesis
    by (rule conjI [OF impI [OF A] conjI [OF impI [OF B] conjI [OF yields_bst yields_pt_bst]]])
qed

text \<open>
  The theorem at the tree with in-order sequence 30, 60, 50, 70, which is of height 2,
  and five calls, on the default stack.
\<close>

theorem inorder_generator_matches_direct_traversal_witness:
  "(generator_create env_ok empty_heap (Some bst_inorder_recursive_generator) tree_invalid 0
       = (Some 1, bst_heap)
    \<and> length (inorder_direct tree_invalid) < 5)
   \<and> unat (frame_bytes env_ok) * (tree_height tree_invalid + 3)
        \<le> unat (if (0 :: size_t) = 0 then DEFAULT_STACK_SIZE else 0)
   \<and> (\<exists>h2. repeat_next env_ok 5 bst_heap (Some 1) =
         Inr (h2, map (\<lambda>k. (scast k, False)) (inorder_direct tree_invalid)
                  @ replicate (5 - length (inorder_direct tree_invalid))
                      (last (0 # map scast (inorder_direct tree_invalid)), True)))
   \<and> (pt_generator_create pt_env_ok (next_calls 5) (Some pt_bst_inorder_recursive_generator)
         tree_invalid = Some bst_system
      \<and> length (inorder_direct tree_invalid) < 5)
   \<and> finished (exec bst_schedule bst_system)
   \<and> results (exec bst_schedule bst_system) =
           lift_results (map (\<lambda>k. (scast k, False)) (inorder_direct tree_invalid)
                  @ replicate (5 - length (inorder_direct tree_invalid))
                      (last (0 # map scast (inorder_direct tree_invalid)), True))
   \<and> inorder_direct tree_invalid = [30, 60, 50, 70]"
proof -
  have l: "length (inorder_direct tree_invalid) < 5" by (simp add: tree_invalid_def)
  have "fst (generator_create env_ok empty_heap (Some bst_inorder_recursive_generator) tree_invalid 0)
          = Some 1"
    by (simp add: generator_create_def env_ok_def empty_heap_def malloc_def
                  DEFAULT_STACK_SIZE_def)
  then have "generator_create env_ok empty_heap (Some bst_inorder_recursive_generator) tree_invalid 0
          = (Some 1, bst_heap)"
    by (simp add: bst_heap_def prod_eq_iff)
  with l have c: "generator_create env_ok empty_heap (Some bst_inorder_recursive_generator) tree_invalid 0
       = (Some 1, bst_heap) \<and> length (inorder_direct tree_invalid) < 5" by (intro conjI)
  have s: "unat (frame_bytes env_ok) * (tree_height tree_invalid + 3)
        \<le> unat (if (0 :: size_t) = 0 then DEFAULT_STACK_SIZE else 0)"
    by (simp add: env_ok_def tree_invalid_def DEFAULT_STACK_SIZE_def)
  have "pt_generator_create pt_env_ok (next_calls 5) (Some pt_bst_inorder_recursive_generator)
         tree_invalid = Some bst_system"
    by (simp add: bst_system_def pt_generator_create_def pt_env_ok_def)
  with l have p: "pt_generator_create pt_env_ok (next_calls 5) (Some pt_bst_inorder_recursive_generator)
         tree_invalid = Some bst_system \<and> length (inorder_direct tree_invalid) < 5" by (intro conjI)
  have f: "finished (exec bst_schedule bst_system)"
    by code_simp
  have v: "inorder_direct tree_invalid = [30, 60, 50, 70]"
    by (simp add: tree_invalid_def)
  note t = inorder_generator_matches_direct_traversal
    [where e = env_ok and h = empty_heap and root = tree_invalid and sz = 0
       and a = 1 and ?h1.0 = bst_heap and n = 5 and pe = pt_env_ok
       and ?s0.0 = bst_system and es = bst_schedule]
  note t1 = t [THEN conjunct1, THEN mp, OF c, THEN conjunct1, THEN mp, OF s]
  note t2 = t [THEN conjunct2, THEN conjunct1, THEN mp, OF p]
  note t3 = t2 [THEN conjunct1, THEN mp, OF f]
  show ?thesis
    by (rule conjI [OF c conjI [OF s conjI [OF t1 conjI [OF p conjI [OF f conjI [OF t3 v]]]]]])
qed

text \<open>
  C5. A tree is a valid binary search tree if and only if its in-order key sequence is
  strictly increasing, be the sequence that of the direct traversal or the one the
  in-order generator yields; and \<^verbatim>\<open>check_bst_property\<close> returns exactly this truth value
  whenever its two generators can be created and the tree has at most 101 nodes (beyond
  that the safety break of the loop, \<^verbatim>\<open>step > 100\<close>, ends the check with false). For the
  tree \<^verbatim>\<open>{50:[30:[_,60],70]}\<close> the sequence is 30, 60, 50, 70 and the check returns false,
  its last comparison being that of 50 with 60, the pair (60, 50); for the tree
  \<^verbatim>\<open>{50:[30:[_,40],70]}\<close> the sequence is 30, 40, 50, 70 and the check returns true after
  three comparisons.
\<close>

theorem bst_iff_inorder_strictly_increasing:
  "(is_bst t \<longleftrightarrow> sorted_wrt (<s) (inorder_direct t))
   \<and> (is_bst t \<longleftrightarrow> sorted_wrt (<s) (yields (bst_inorder_recursive_generator t)))
   \<and> (malloc_gen_ok e \<and> malloc_stack_ok e (32 * 1024) \<and> getcontext_ok e
        \<and> length (inorder_direct t) \<le> 101 \<longrightarrow>
      map_sum id (fst \<circ> snd) (check_bst_property e h t) = Inr (is_bst t))
   \<and> inorder_direct tree_invalid = [30, 60, 50, 70]
   \<and> map_sum id snd (check_bst_property env_ok empty_heap tree_invalid)
       = Inr (False, [(0, 60, 30), (1, 50, 60)])
   \<and> inorder_direct tree_valid = [30, 40, 50, 70]
   \<and> map_sum id snd (check_bst_property env_ok empty_heap tree_valid)
       = Inr (True, [(0, 40, 30), (1, 50, 40), (2, 70, 50)])"
proof (intro conjI impI)
  show "is_bst t \<longleftrightarrow> sorted_wrt (<s) (inorder_direct t)"
    by (rule is_bst_iff_sorted)
  show "is_bst t \<longleftrightarrow> sorted_wrt (<s) (yields (bst_inorder_recursive_generator t))"
    by (simp only: yields_bst sorted_scast is_bst_iff_sorted)
  show "inorder_direct tree_invalid = [30, 60, 50, 70]"
    by (simp add: tree_invalid_def)
  show "inorder_direct tree_valid = [30, 40, 50, 70]"
    by (simp add: tree_valid_def)
  have ok: "malloc_gen_ok env_ok" "malloc_stack_ok env_ok (32 * 1024)" "getcontext_ok env_ok"
    by (simp_all add: env_ok_def)
  have fit: "unat (frame_bytes env_ok) * stack_needed bst_inorder_recursive_generator t' \<le> 32768"
    if "length (inorder_direct t') \<le> 101" for t'
    using that by (rule small_tree_fits)
  have "length (inorder_direct tree_invalid) \<le> 101" by (simp add: tree_invalid_def)
  note fit_invalid = fit [OF this]
  have "length (inorder_direct tree_valid) \<le> 101" by (simp add: tree_valid_def)
  note fit_valid = fit [OF this]
  have "lockstep_check (map scast (inorder_direct tree_invalid))
          = (False, [(0, 60, 30), (1, 50, 60)])"
    by code_simp
  with check_bst_property_lockstep [OF ok fit_invalid, of empty_heap]
  show "map_sum id snd (check_bst_property env_ok empty_heap tree_invalid)
       = Inr (False, [(0, 60, 30), (1, 50, 60)])"
    by simp
  have "lockstep_check (map scast (inorder_direct tree_valid))
          = (True, [(0, 40, 30), (1, 50, 40), (2, 70, 50)])"
    by code_simp
  with check_bst_property_lockstep [OF ok fit_valid, of empty_heap]
  show "map_sum id snd (check_bst_property env_ok empty_heap tree_valid)
       = Inr (True, [(0, 40, 30), (1, 50, 40), (2, 70, 50)])"
    by simp
next
  assume "malloc_gen_ok e \<and> malloc_stack_ok e (32 * 1024) \<and> getcontext_ok e
        \<and> length (inorder_direct t) \<le> 101"
  then have a: "malloc_gen_ok e" "malloc_stack_ok e (32 * 1024)" "getcontext_ok e"
    "length (inorder_direct t) \<le> 101" by simp_all
  show "map_sum id (fst \<circ> snd) (check_bst_property e h t) = Inr (is_bst t)"
    by (rule check_bst_property_decides [OF a])
qed

text \<open>
  The theorem at the valid tree, in an environment in which every allocation succeeds:
  the tree is a binary search tree, its sequences are increasing, and the check says so.
\<close>

theorem bst_iff_inorder_strictly_increasing_witness:
  "is_bst tree_valid \<and> sorted_wrt (<s) (inorder_direct tree_valid)
   \<and> sorted_wrt (<s) (yields (bst_inorder_recursive_generator tree_valid))
   \<and> (malloc_gen_ok env_ok \<and> malloc_stack_ok env_ok (32 * 1024) \<and> getcontext_ok env_ok
        \<and> length (inorder_direct tree_valid) \<le> 101)
   \<and> map_sum id (fst \<circ> snd) (check_bst_property env_ok (empty_heap :: tree heap) tree_valid)
       = Inr (is_bst tree_valid)"
proof -
  have v: "is_bst tree_valid" by (simp add: tree_valid_def word_sless_alt)
  have ok: "malloc_gen_ok env_ok \<and> malloc_stack_ok env_ok (32 * 1024) \<and> getcontext_ok env_ok
        \<and> length (inorder_direct tree_valid) \<le> 101"
    by (simp add: env_ok_def tree_valid_def)
  note t = bst_iff_inorder_strictly_increasing
    [where t = tree_valid and e = env_ok and h = "empty_heap :: tree heap"]
  show ?thesis
    by (rule conjI [OF v conjI [OF t [THEN conjunct1, THEN iffD1, OF v]
          conjI [OF t [THEN conjunct2, THEN conjunct1, THEN iffD1, OF v]
          conjI [OF ok t [THEN conjunct2, THEN conjunct2, THEN conjunct1, THEN mp, OF ok]]]]])
qed

text \<open>
  C6. \<^verbatim>\<open>generator_destroy\<close> on a threaded generator on which \<^verbatim>\<open>generator_next\<close> was never
  called. When the worker thread has not run yet, \<^verbatim>\<open>started\<close> is still false, so
  \<^verbatim>\<open>generator_destroy\<close> does not join: it returns with the generator freed while the
  worker is still at its entry, and the worker's first step then uses the freed object
  (first five lines). The same happens when the worker runs its first section between
  the unlock of \<^verbatim>\<open>generator_destroy\<close> and its cleanup (sixth line). When the worker is
  already inside its initial wait, \<^verbatim>\<open>generator_destroy\<close> wakes it, joins it and frees the
  generator without fault (last three lines).
\<close>

theorem destroy_before_worker_starts:
  "finished (exec [Run_caller, Run_caller] early_destroy_system)
   \<and> freed (exec [Run_caller, Run_caller] early_destroy_system)
   \<and> \<not> fault (exec [Run_caller, Run_caller] early_destroy_system)
   \<and> worker (exec [Run_caller, Run_caller] early_destroy_system) = W_entry
   \<and> fault (exec [Run_caller, Run_caller, Run_worker] early_destroy_system)
   \<and> fault (exec [Run_caller, Run_worker, Run_caller, Run_worker] early_destroy_system)
   \<and> finished (exec [Run_worker, Run_caller, Run_caller, Run_caller, Run_worker, Run_caller,
                       Run_caller] early_destroy_system)
   \<and> \<not> fault (exec [Run_worker, Run_caller, Run_caller, Run_caller, Run_worker, Run_caller,
                      Run_caller] early_destroy_system)
   \<and> worker (exec [Run_worker, Run_caller, Run_caller, Run_caller, Run_worker, Run_caller,
                     Run_caller] early_destroy_system) = W_exited"
  by code_simp




text \<open>
  C8. The Fibonacci producer of fib_pthread.c, seeded with (1, 1), yields exactly
  1, 1, 2, 3, 5, 8, 13, 21, 34, 55, each value after the first two being the sum of the two
  before it. On the threaded backend, for a caller making eleven calls of
  \<^verbatim>\<open>generator_next\<close>, on every schedule on which the caller gets through the first ten
  calls return these values with finished false and the eleventh reports finished; every
  schedule can be continued so that the caller gets through.
\<close>

theorem fibonacci_first_ten:
  "yields (fib_generator_func ()) = [1, 1, 2, 3, 5, 8, 13, 21, 34, 55]
   \<and> sums_of_previous_two (yields (fib_generator_func ()))
   \<and> (pt_generator_create pe (next_calls 11) (Some fib_generator_func) () = Some s0 \<longrightarrow>
        (finished (exec es s0) \<longrightarrow>
           results (exec es s0) =
             [(1, Some False), (1, Some False), (2, Some False), (3, Some False),
              (5, Some False), (8, Some False), (13, Some False), (21, Some False),
              (34, Some False), (55, Some False), (55, Some True)])
        \<and> (\<exists>later. finished (exec (es @ later) s0)))"
proof -
  have sums: "sums_of_previous_two (yields (fib_generator_func ()))"
    by (simp add: yields_fib)
  have B: "(finished (exec es s0) \<longrightarrow>
           results (exec es s0) =
             [(1, Some False), (1, Some False), (2, Some False), (3, Some False),
              (5, Some False), (8, Some False), (13, Some False), (21, Some False),
              (34, Some False), (55, Some False), (55, Some True)])
        \<and> (\<exists>later. finished (exec (es @ later) s0))"
    if c: "pt_generator_create pe (next_calls 11) (Some fib_generator_func) () = Some s0"
  proof -
    have k: "calls_ok (next_calls 11)" by (rule calls_ok_next_calls)
    have d: "next_calls 11 \<noteq> [Call_destroy GEN]"
      by (rule next_calls_not_destroy)
    note r = created_run [OF c k d, of es, unfolded nexts_in_next_calls yields_fib next_results_fib]
    from r(3) r(4) show ?thesis by (simp add: lift_results_def)
  qed
  show ?thesis
    by (rule conjI [OF yields_fib conjI [OF sums impI [OF B]]])
qed

text \<open>
  The theorem at a created system and a schedule on which the caller gets through.
\<close>

theorem fibonacci_first_ten_witness:
  "pt_generator_create pt_env_ok (next_calls 11) (Some fib_generator_func) () = Some fib_system
   \<and> finished (exec fib_schedule fib_system)
   \<and> results (exec fib_schedule fib_system) =
             [(1, Some False), (1, Some False), (2, Some False), (3, Some False),
              (5, Some False), (8, Some False), (13, Some False), (21, Some False),
              (34, Some False), (55, Some False), (55, Some True)]"
proof -
  have p: "pt_generator_create pt_env_ok (next_calls 11) (Some fib_generator_func) () = Some fib_system"
    by (simp add: fib_system_def pt_generator_create_def pt_env_ok_def)
  have f: "finished (exec fib_schedule fib_system)"
    by code_simp
  note t = fibonacci_first_ten [where pe = pt_env_ok and ?s0.0 = fib_system and es = fib_schedule]
  note t3 = t [THEN conjunct2, THEN conjunct2, THEN mp, OF p, THEN conjunct1, THEN mp, OF f]
  show ?thesis
    by (rule conjI [OF p conjI [OF f t3]])
qed

text \<open>
  C9, as stated, fails: a stack size of one byte is not rejected; the generator is created
  on a stack block of one byte.
\<close>

theorem stack_size_not_validated_counterexample:
  "fst (generator_create env_ok (empty_heap :: unit heap) (Some two_yields) () 1) = Some 1
   \<and> cells (snd (generator_create env_ok (empty_heap :: unit heap) (Some two_yields) () 1)) 2
       = Some (Raw_block 1)"
  by (simp add: generator_create_def env_ok_def empty_heap_def malloc_def)

text \<open>
  C9, amended. \<^verbatim>\<open>generator_create\<close> of the stackful backend replaces a stack size of 0 by
  the default of 16 KB (16384 bytes) and uses every other size as it is given: on success
  the generator records that size and owns a stack block of exactly that many bytes.
  No size is refused as such: for a non-\<^verbatim>\<open>NULL\<close> function the creation fails exactly when
  an allocation or \<^verbatim>\<open>getcontext\<close> fails. (\<^verbatim>\<open>size_t\<close> has no negative values.)
\<close>

theorem generator_create_stack_size:
  "(generator_create e h (Some f) ud sz = (Some a, h') \<longrightarrow>
      (\<exists>g sa. cells h' a = Some (Gen_block g) \<and> stack g = Some sa \<and> sa \<noteq> a
              \<and> stack_size g = (if sz = 0 then DEFAULT_STACK_SIZE else sz)
              \<and> cells h' sa = Some (Raw_block (unat (if sz = 0 then DEFAULT_STACK_SIZE else sz)))))
   \<and> unat DEFAULT_STACK_SIZE = 16384
   \<and> (fst (generator_create e h (Some f) ud sz) \<noteq> None \<longleftrightarrow>
        malloc_gen_ok e \<and> malloc_stack_ok e (if sz = 0 then DEFAULT_STACK_SIZE else sz)
        \<and> getcontext_ok e)"
proof (intro conjI impI)
  assume "generator_create e h (Some f) ud sz = (Some a, h')"
  from generator_create_live [OF this]
  show "\<exists>g sa. cells h' a = Some (Gen_block g) \<and> stack g = Some sa \<and> sa \<noteq> a
              \<and> stack_size g = (if sz = 0 then DEFAULT_STACK_SIZE else sz)
              \<and> cells h' sa = Some (Raw_block (unat (if sz = 0 then DEFAULT_STACK_SIZE else sz)))"
    by auto
next
  show "unat DEFAULT_STACK_SIZE = 16384" by (simp add: DEFAULT_STACK_SIZE_def)
next
  show "fst (generator_create e h (Some f) ud sz) \<noteq> None \<longleftrightarrow>
        malloc_gen_ok e \<and> malloc_stack_ok e (if sz = 0 then DEFAULT_STACK_SIZE else sz)
        \<and> getcontext_ok e"
    by (auto simp: generator_create_def malloc_def Let_def word_greater_zero_iff)
qed

text \<open>The theorem at a creation with stack size 0, which succeeds.\<close>

theorem generator_create_stack_size_witness:
  "generator_create env_ok empty_heap (Some two_yields) () 0 = (Some 1, two_yields_heap)
   \<and> (\<exists>g sa. cells two_yields_heap 1 = Some (Gen_block g) \<and> stack g = Some sa \<and> sa \<noteq> 1
              \<and> stack_size g = (if (0 :: size_t) = 0 then DEFAULT_STACK_SIZE else 0)
              \<and> cells two_yields_heap sa
                  = Some (Raw_block (unat (if (0 :: size_t) = 0 then DEFAULT_STACK_SIZE else 0))))"
proof -
  have "fst (generator_create env_ok empty_heap (Some two_yields) () 0) = Some 1"
    by (simp add: generator_create_def env_ok_def empty_heap_def malloc_def
                  DEFAULT_STACK_SIZE_def)
  then have c: "generator_create env_ok empty_heap (Some two_yields) () 0 = (Some 1, two_yields_heap)"
    by (simp add: two_yields_heap_def prod_eq_iff)
  note t = generator_create_stack_size
    [where e = env_ok and h = empty_heap and f = two_yields and ud = "()" and sz = 0
       and a = 1 and h' = two_yields_heap]
  show ?thesis
    by (rule conjI [OF c t [THEN conjunct1, THEN mp, OF c]])
qed

text \<open>
  C10. \<^verbatim>\<open>generator_next\<close> on a \<^verbatim>\<open>NULL\<close> handle, in both backends: it returns 0, sets
  \<^verbatim>\<open>*done\<close> to true when \<open>done\<close> is not \<^verbatim>\<open>NULL\<close> and changes nothing else. Stackful: the
  heap is returned as it was, whatever it holds. Threaded: from any state of the system
  in which the caller is about to make the call, one step of the caller completes it; the
  value 0 and the flag are recorded and the generator object, both threads and the
  freed flag stay as they were.
\<close>

theorem generator_next_null_handle:
  "generator_next e sw h None d = Inr (h, map_option (\<lambda>_. True) d, 0)
   \<and> step Run_caller (s\<lparr>fault := False, caller := C_idle, calls := Call_next NULL d # cs\<rparr>)
       = s\<lparr>fault := False, caller := C_idle, calls := cs,
           results := results s @ [(0, map_option (\<lambda>_. True) d)]\<rparr>"
  by (simp add: generator_next_def step_def)

theorem generator_next_null_handle_witness:
  "generator_next env_ok True finished_heap None (Some False)
     = Inr (finished_heap, map_option (\<lambda>_. True) (Some False), 0)
   \<and> step Run_caller
        (returning_system\<lparr>fault := False, caller := C_idle, calls := Call_next NULL (Some False) # []\<rparr>)
       = returning_system\<lparr>fault := False, caller := C_idle, calls := [],
           results := results returning_system @ [(0, map_option (\<lambda>_. True) (Some False))]\<rparr>"
  by (rule generator_next_null_handle
       [where e = env_ok and sw = True and h = finished_heap and d = "Some False"
          and s = returning_system and cs = "[]"])

end
